theory Spec2Isabelle
  imports Main "HOL-Library.Word"
begin

section \<open>dynamic\_list.h: a single-header growable array\<close>

text \<open>
  A shallow embedding of \<^verbatim>\<open>dynamic_list.h\<close>. The header keeps one heap block per list:
  a \<^verbatim>\<open>ListPrelude\<close> immediately followed by the element buffer. The caller holds a
  pointer to the first element; \<^verbatim>\<open>list_prelude(list)\<close> steps back by one prelude.

  Conventions of the embedding:
  \<^item> \<^verbatim>\<open>size_t\<close> is a 64-bit word (LP64): \<open>+\<close> and \<open>*\<close> wrap around as in C.
  \<^item> A pointer is an address (a natural number), \<open>NULL\<close> is 0. The heap maps the address of
    a block to the block. \<^verbatim>\<open>prelude + 1\<close> adds \<open>sizeof(ListPrelude)\<close> bytes.
  \<^item> Undefined behaviour of the C program (a store through a null pointer, an access
    through a pointer to no live block, an element access past the end of the block) is
    an explicit \<open>fault\<close> value, never a silent result.
  \<^item> The element type is erased in C; the embedding is polymorphic in it. A slot holds
    \<open>None\<close> until it is written (malloc and realloc leave new memory indeterminate).
  \<^item> The loop of \<^verbatim>\<open>list_ensure_capacity\<close> may run forever; it is a partial function
    into \<open>option\<close>, and \<open>None\<close> means that the call does not return.
\<close>

subsection \<open>Data\<close>

type_synonym size_t = "64 word"
type_synonym addr = nat

abbreviation (input) NULL :: addr where
  "NULL \<equiv> 0"

text \<open>\<^verbatim>\<open>#define DEFAULT_LIST_CAPACITY 16\<close>\<close>

definition DEFAULT_LIST_CAPACITY :: size_t where
  "DEFAULT_LIST_CAPACITY = 16"

text \<open>
  \<^verbatim>\<open>sizeof(ListPrelude)\<close>: two \<^verbatim>\<open>size_t\<close> fields and a pointer aligned to
  \<^verbatim>\<open>max_align_t\<close> (16 bytes on x86-64), so 32 bytes.
\<close>

definition sizeof_ListPrelude :: size_t where
  "sizeof_ListPrelude = 32"

datatype fault = NullDeref | InvalidPointer | OutOfBounds

text \<open>
  \<^verbatim>\<open>typedef struct { alloc; realloc; free; context; } Allocator;\<close>
  The three functions receive the context. A C allocator keeps its state behind the
  context pointer; here a function takes the state and returns the new one, and the
  field \<open>context\<close> holds the current state. A function returns the address it answers
  with, \<open>NULL\<close> for failure.
\<close>

record 'c Allocator =
  alloc :: "size_t \<Rightarrow> 'c \<Rightarrow> addr \<times> 'c"
  realloc :: "addr \<Rightarrow> size_t \<Rightarrow> 'c \<Rightarrow> addr \<times> 'c"
  free :: "addr \<Rightarrow> 'c \<Rightarrow> 'c"
  "context" :: 'c

text \<open>
  \<^verbatim>\<open>typedef struct { size_t capacity; size_t length; Allocator* allocator; } ListPrelude;\<close>
  (\<open>length\<close> is a constant of HOL, so the field is \<open>length_p\<close>.)
\<close>

record ListPrelude =
  capacity :: size_t
  length_p :: size_t
  allocator :: addr

text \<open>
  A heap block: the prelude and the buffer behind it. \<open>stride\<close> is
  \<^verbatim>\<open>sizeof(*(list))\<close>, fixed by the static type of the handle; \<open>slots\<close> are the element
  slots that physically fit into the block.
\<close>

record 'a block = ListPrelude +
  stride :: size_t
  slots :: "'a option list"

text \<open>The calls made to allocators, in order (a ghost log; the C code keeps none).\<close>

datatype alloc_call = Alloc size_t | Realloc addr size_t | Free addr

record ('a, 'c) memory =
  blocks :: "addr \<rightharpoonup> 'a block"
  allocators :: "addr \<rightharpoonup> 'c Allocator"
  calls :: "alloc_call list"

text \<open>The address of \<^verbatim>\<open>static Allocator default_allocator\<close>.\<close>

definition default_allocator :: addr where
  "default_allocator = 8"

subsection \<open>Pointers and block sizes\<close>

text \<open>\<^verbatim>\<open>#define list_prelude(list) ((ListPrelude*)(list)-1)\<close>\<close>

definition list_prelude :: "addr \<Rightarrow> addr" where
  "list_prelude list = list - unat sizeof_ListPrelude"

text \<open>\<^verbatim>\<open>prelude + 1\<close>\<close>

definition prelude_end :: "addr \<Rightarrow> addr" where
  "prelude_end prelude = prelude + unat sizeof_ListPrelude"

text \<open>How many elements of \<open>elem_size\<close> bytes fit behind the prelude in a block of \<open>n_bytes\<close> bytes.\<close>

definition nslots :: "size_t \<Rightarrow> size_t \<Rightarrow> nat" where
  "nslots n_bytes elem_size = (unat n_bytes - unat sizeof_ListPrelude) div unat elem_size"

text \<open>
  The contract of C's realloc on the buffer: the contents are kept up to the lesser of the
  old and new sizes, new room is indeterminate.
\<close>

definition resize_slots :: "nat \<Rightarrow> 'a option list \<Rightarrow> 'a option list" where
  "resize_slots n xs = take n xs @ replicate (n - length xs) None"

subsection \<open>Calling an allocator\<close>

text \<open>
  \<^verbatim>\<open>allocator->alloc(size, allocator->context)\<close>. The allocator answers with an address;
  on success the block at that address is new and its contents are indeterminate, which
  the caller of \<open>call_alloc\<close> fills in.
\<close>

definition call_alloc ::
  "('a, 'c) memory \<Rightarrow> addr \<Rightarrow> size_t \<Rightarrow> fault + ('a, 'c) memory \<times> addr" where
  "call_alloc m a n_bytes =
     (case allocators m a of
        None \<Rightarrow> Inl InvalidPointer
      | Some al \<Rightarrow>
          (case alloc al n_bytes (context al) of
             (p, c') \<Rightarrow>
               Inr (m\<lparr>allocators := (allocators m)(a \<mapsto> al\<lparr>context := c'\<rparr>),
                      calls := calls m @ [Alloc n_bytes]\<rparr>, p)))"

text \<open>
  \<^verbatim>\<open>allocator->realloc(p, new_size, allocator->context)\<close>. On failure (\<open>NULL\<close>) the old
  block stays as it is. On success the block lives at the answered address with the
  buffer cut or extended to the new size, and the old address is dead. The allocator
  decides the address and whether it fails; that it moves the contents as C's realloc
  does is the contract the header relies on, and is built into this function. An
  allocator that answers with the address of another live block overwrites that block.
\<close>

definition call_realloc ::
  "('a, 'c) memory \<Rightarrow> addr \<Rightarrow> addr \<Rightarrow> size_t \<Rightarrow> fault + ('a, 'c) memory \<times> addr" where
  "call_realloc m a p new_size =
     (case allocators m a of
        None \<Rightarrow> Inl InvalidPointer
      | Some al \<Rightarrow>
          (case blocks m p of
             None \<Rightarrow> Inl InvalidPointer
           | Some b \<Rightarrow>
               (case realloc al p new_size (context al) of
                  (q, c') \<Rightarrow>
                    Inr (m\<lparr>blocks :=
                             (if q = NULL then blocks m
                              else ((blocks m)(p := None))
                                (q \<mapsto> b\<lparr>slots := resize_slots (nslots new_size (stride b)) (slots b)\<rparr>)),
                           allocators := (allocators m)(a \<mapsto> al\<lparr>context := c'\<rparr>),
                           calls := calls m @ [Realloc p new_size]\<rparr>, q))))"

subsection \<open>create\_list\<close>

text \<open>
  \<^verbatim>\<open>
  void* create_list(const size_t stride, const size_t capacity, Allocator* allocator)
  {
      if (allocator == NULL)
          allocator = &default_allocator;
      void* result = NULL;
      ListPrelude* prelude = allocator->alloc(sizeof(ListPrelude) + stride * capacity, allocator->context);
      if (prelude)
      {
          prelude->capacity = capacity;
          prelude->length = 0;
          prelude->allocator = allocator;
          result = prelude + 1;
      }
      return result;
  }
  \<close>
  Writing the prelude into a block too small to hold it is out of bounds.
\<close>

definition create_list ::
  "('a, 'c) memory \<Rightarrow> size_t \<Rightarrow> size_t \<Rightarrow> addr \<Rightarrow> fault + ('a, 'c) memory \<times> addr" where
  "create_list m stride_arg capacity_arg allocator_arg =
     (let a = (if allocator_arg = NULL then default_allocator else allocator_arg);
          n_bytes = sizeof_ListPrelude + stride_arg * capacity_arg
      in case call_alloc m a n_bytes of
           Inl f \<Rightarrow> Inl f
         | Inr (m1, prelude) \<Rightarrow>
             if prelude \<noteq> NULL then
               if n_bytes < sizeof_ListPrelude then Inl OutOfBounds
               else Inr (m1\<lparr>blocks := (blocks m1)(prelude \<mapsto>
                           \<lparr>capacity = capacity_arg, length_p = 0, allocator = a,
                            stride = stride_arg,
                            slots = replicate (nslots n_bytes stride_arg) None\<rparr>)\<rparr>,
                         prelude_end prelude)
             else Inr (m1, NULL))"

text \<open>\<^verbatim>\<open>#define list_new(T) ((T*)create_list(sizeof(T), DEFAULT_LIST_CAPACITY, NULL))\<close>\<close>

definition list_new :: "('a, 'c) memory \<Rightarrow> size_t \<Rightarrow> fault + ('a, 'c) memory \<times> addr" where
  "list_new m sizeof_T = create_list m sizeof_T DEFAULT_LIST_CAPACITY NULL"

subsection \<open>list\_ensure\_capacity\<close>

text \<open>
  \<^verbatim>\<open>
  while (new_capacity < desired_capacity) {
      new_capacity *= 2;
  }
  \<close>
\<close>

partial_function (option) grow_capacity :: "size_t \<Rightarrow> size_t \<Rightarrow> size_t option" where
  "grow_capacity new_capacity desired_capacity =
     (if new_capacity < desired_capacity
      then grow_capacity (new_capacity * 2) desired_capacity
      else Some new_capacity)"

declare grow_capacity.simps [code]

text \<open>
  \<^verbatim>\<open>prelude->capacity = new_capacity;\<close> with the pointer that realloc returned, unchecked.
\<close>

definition store_capacity ::
  "('a, 'c) memory \<Rightarrow> addr \<Rightarrow> size_t \<Rightarrow> fault + ('a, 'c) memory" where
  "store_capacity m prelude v =
     (if prelude = NULL then Inl NullDeref
      else case blocks m prelude of
             None \<Rightarrow> Inl InvalidPointer
           | Some b \<Rightarrow> Inr (m\<lparr>blocks := (blocks m)(prelude \<mapsto> b\<lparr>capacity := v\<rparr>)\<rparr>))"

text \<open>
  \<^verbatim>\<open>
  void* list_ensure_capacity(void *list, const size_t item_count, const size_t item_size) {
      ListPrelude* prelude = list_prelude(list);
      const size_t desired_capacity = prelude->length + item_count;
      if (prelude->capacity < desired_capacity) {
          size_t new_capacity = prelude->capacity * 2;
          while (new_capacity < desired_capacity) {
              new_capacity *= 2;
          }
          const size_t new_size = sizeof(ListPrelude) + new_capacity * item_size;
          prelude = prelude->allocator->realloc(prelude, new_size, prelude->allocator->context);
          prelude->capacity = new_capacity;
      }
      return prelude + 1;
  }
  \<close>
  The result of realloc is not checked: after a failed realloc the store goes through
  \<open>NULL\<close>. A block that realloc made smaller than a prelude cannot take the store either.
\<close>

definition list_ensure_capacity ::
  "('a, 'c) memory \<Rightarrow> addr \<Rightarrow> size_t \<Rightarrow> size_t \<Rightarrow> (fault + ('a, 'c) memory \<times> addr) option" where
  "list_ensure_capacity m list item_count item_size =
     (let prelude = list_prelude list in
      case blocks m prelude of
        None \<Rightarrow> Some (Inl InvalidPointer)
      | Some b \<Rightarrow>
          (let desired_capacity = length_p b + item_count in
           if capacity b < desired_capacity then
             (case grow_capacity (capacity b * 2) desired_capacity of
                None \<Rightarrow> None
              | Some new_capacity \<Rightarrow>
                  (let new_size = sizeof_ListPrelude + new_capacity * item_size in
                   case call_realloc m (allocator b) prelude new_size of
                     Inl f \<Rightarrow> Some (Inl f)
                   | Inr (m1, prelude') \<Rightarrow>
                       if prelude' \<noteq> NULL \<and> new_size < sizeof_ListPrelude
                       then Some (Inl OutOfBounds)
                       else (case store_capacity m1 prelude' new_capacity of
                               Inl f \<Rightarrow> Some (Inl f)
                             | Inr m2 \<Rightarrow> Some (Inr (m2, prelude_end prelude')))))
           else Some (Inr (m, prelude_end prelude))))"

subsection \<open>The macros\<close>

text \<open>
  \<^verbatim>\<open>#define list_len(list) (list_prelude(list)->length)\<close> and
  \<^verbatim>\<open>#define list_cap(list) (list_prelude(list)->capacity)\<close>
\<close>

definition list_len :: "('a, 'c) memory \<Rightarrow> addr \<Rightarrow> fault + size_t" where
  "list_len m list =
     (case blocks m (list_prelude list) of
        None \<Rightarrow> Inl InvalidPointer
      | Some b \<Rightarrow> Inr (length_p b))"

definition list_cap :: "('a, 'c) memory \<Rightarrow> addr \<Rightarrow> fault + size_t" where
  "list_cap m list =
     (case blocks m (list_prelude list) of
        None \<Rightarrow> Inl InvalidPointer
      | Some b \<Rightarrow> Inr (capacity b))"

text \<open>
  Indexed access \<^verbatim>\<open>list[i]\<close>, as a read and as a write. The read of a slot that was
  never written gives \<open>None\<close>.
\<close>

definition list_get :: "('a, 'c) memory \<Rightarrow> addr \<Rightarrow> size_t \<Rightarrow> fault + 'a option" where
  "list_get m list i =
     (case blocks m (list_prelude list) of
        None \<Rightarrow> Inl InvalidPointer
      | Some b \<Rightarrow>
          if unat i < length (slots b) then Inr (slots b ! unat i) else Inl OutOfBounds)"

definition list_set :: "('a, 'c) memory \<Rightarrow> addr \<Rightarrow> size_t \<Rightarrow> 'a \<Rightarrow> fault + ('a, 'c) memory" where
  "list_set m list i v =
     (case blocks m (list_prelude list) of
        None \<Rightarrow> Inl InvalidPointer
      | Some b \<Rightarrow>
          if unat i < length (slots b)
          then Inr (m\<lparr>blocks := (blocks m)(list_prelude list \<mapsto> b\<lparr>slots := (slots b)[unat i := Some v]\<rparr>)\<rparr>)
          else Inl OutOfBounds)"

text \<open>\<^verbatim>\<open>#define list_clear(list) (list_prelude(list)->length = 0)\<close>\<close>

definition list_clear :: "('a, 'c) memory \<Rightarrow> addr \<Rightarrow> fault + ('a, 'c) memory" where
  "list_clear m list =
     (case blocks m (list_prelude list) of
        None \<Rightarrow> Inl InvalidPointer
      | Some b \<Rightarrow> Inr (m\<lparr>blocks := (blocks m)(list_prelude list \<mapsto> b\<lparr>length_p := 0\<rparr>)\<rparr>))"

text \<open>
  \<^verbatim>\<open>sizeof(*(list))\<close> is a compile-time constant of the handle's type; the embedding
  reads it from the block. It accesses no memory and cannot fault.
\<close>

definition sizeof_elem :: "('a, 'c) memory \<Rightarrow> addr \<Rightarrow> size_t" where
  "sizeof_elem m list = (case blocks m (list_prelude list) of None \<Rightarrow> 0 | Some b \<Rightarrow> stride b)"

text \<open>A pointer to an element, \<^verbatim>\<open>&(list)[i]\<close>: the handle and the index.\<close>

type_synonym elem_ref = "addr \<times> size_t"

text \<open>
  \<^verbatim>\<open>
  #define list_resize(list, desired) ( \
      (list) = list_ensure_capacity(list, desired, sizeof(*(list))), \
      &(list)[list_prelude(list)->length += (desired)])
  \<close>
  The value of \<^verbatim>\<open>length += desired\<close> is the length after the addition.
  The result is the memory, the new value of \<^verbatim>\<open>list\<close> and the pointer the macro
  evaluates to.
\<close>

definition list_resize ::
  "('a, 'c) memory \<Rightarrow> addr \<Rightarrow> size_t \<Rightarrow> (fault + ('a, 'c) memory \<times> addr \<times> elem_ref) option" where
  "list_resize m list desired =
     (case list_ensure_capacity m list desired (sizeof_elem m list) of
        None \<Rightarrow> None
      | Some (Inl f) \<Rightarrow> Some (Inl f)
      | Some (Inr (m1, list1)) \<Rightarrow>
          (case blocks m1 (list_prelude list1) of
             None \<Rightarrow> Some (Inl InvalidPointer)
           | Some b \<Rightarrow>
               (let n = length_p b + desired in
                Some (Inr (m1\<lparr>blocks := (blocks m1)(list_prelude list1 \<mapsto> b\<lparr>length_p := n\<rparr>)\<rparr>,
                           list1, (list1, n))))))"

text \<open>
  \<^verbatim>\<open>
  #define list_append(list, item) ( \
      (list) = list_ensure_capacity(list, 1, sizeof(item)), \
      (list)[list_prelude(list)->length] = (item), \
      &(list)[list_prelude(list)->length++])
  \<close>
  \<open>item_size\<close> is \<^verbatim>\<open>sizeof(item)\<close>, the size of the type of the expression that is
  appended; the macro does not use \<^verbatim>\<open>sizeof(*(list))\<close> here.
\<close>

definition list_append ::
  "('a, 'c) memory \<Rightarrow> addr \<Rightarrow> 'a \<Rightarrow> size_t \<Rightarrow> (fault + ('a, 'c) memory \<times> addr \<times> elem_ref) option" where
  "list_append m list item item_size =
     (case list_ensure_capacity m list 1 item_size of
        None \<Rightarrow> None
      | Some (Inl f) \<Rightarrow> Some (Inl f)
      | Some (Inr (m1, list1)) \<Rightarrow>
          (case blocks m1 (list_prelude list1) of
             None \<Rightarrow> Some (Inl InvalidPointer)
           | Some b \<Rightarrow>
               (case list_set m1 list1 (length_p b) item of
                  Inl f \<Rightarrow> Some (Inl f)
                | Inr m2 \<Rightarrow>
                    (case blocks m2 (list_prelude list1) of
                       None \<Rightarrow> Some (Inl InvalidPointer)
                     | Some b2 \<Rightarrow>
                         Some (Inr (m2\<lparr>blocks := (blocks m2)(list_prelude list1 \<mapsto>
                                        b2\<lparr>length_p := length_p b2 + 1\<rparr>)\<rparr>,
                                    list1, (list1, length_p b2)))))))"

text \<open>
  \<^verbatim>\<open>
  #define list_remove_at(list, index) do { \
      ListPrelude *h = list_prelude(list); \
      if ((index) == h->length - 1) { \
          h->length -= 1; \
      } else if (h->length > 1) { \
          void *ptr = &(list)[index]; \
          void *last = &(list)[h->length - 1]; \
          h->length -= 1; \
          memcpy(ptr, last, sizeof(*(list))); \
      } \
  } while (0)
  \<close>
  \<^verbatim>\<open>memcpy\<close> copies the bytes of the slot, written or not.
\<close>

definition list_remove_at :: "('a, 'c) memory \<Rightarrow> addr \<Rightarrow> size_t \<Rightarrow> fault + ('a, 'c) memory" where
  "list_remove_at m list index =
     (let h = list_prelude list in
      case blocks m h of
        None \<Rightarrow> Inl InvalidPointer
      | Some b \<Rightarrow>
          if index = length_p b - 1 then
            Inr (m\<lparr>blocks := (blocks m)(h \<mapsto> b\<lparr>length_p := length_p b - 1\<rparr>)\<rparr>)
          else if length_p b > 1 then
            (let ptr = unat index; last = unat (length_p b - 1) in
             if ptr < length (slots b) \<and> last < length (slots b)
             then Inr (m\<lparr>blocks := (blocks m)(h \<mapsto>
                         b\<lparr>length_p := length_p b - 1, slots := (slots b)[ptr := slots b ! last]\<rparr>)\<rparr>)
             else Inl OutOfBounds)
          else Inr m)"

text \<open>
  \<^verbatim>\<open>#define list_pop_back(a) (array_header(a)->length -= 1)\<close>
  The header defines no \<^verbatim>\<open>array_header\<close>: the macro that finds the prelude is
  \<^verbatim>\<open>list_prelude\<close>. The lookup is a parameter here.
\<close>

definition list_pop_back ::
  "(addr \<Rightarrow> addr) \<Rightarrow> ('a, 'c) memory \<Rightarrow> addr \<Rightarrow> fault + ('a, 'c) memory" where
  "list_pop_back array_header m a =
     (case blocks m (array_header a) of
        None \<Rightarrow> Inl InvalidPointer
      | Some b \<Rightarrow> Inr (m\<lparr>blocks := (blocks m)(array_header a \<mapsto> b\<lparr>length_p := length_p b - 1\<rparr>)\<rparr>))"

text \<open>
  \<^verbatim>\<open>
  #define list_free(list) list_prelude(list)->allocator->free(list_prelude(list),
      list_prelude(list)->allocator->context)
  \<close>
\<close>

definition list_free :: "('a, 'c) memory \<Rightarrow> addr \<Rightarrow> fault + ('a, 'c) memory" where
  "list_free m list =
     (let prelude = list_prelude list in
      case blocks m prelude of
        None \<Rightarrow> Inl InvalidPointer
      | Some b \<Rightarrow>
          (case allocators m (allocator b) of
             None \<Rightarrow> Inl InvalidPointer
           | Some al \<Rightarrow>
               Inr (m\<lparr>blocks := (blocks m)(prelude := None),
                      allocators := (allocators m)
                        (allocator b \<mapsto> al\<lparr>context := free al prelude (context al)\<rparr>),
                      calls := calls m @ [Free prelude]\<rparr>)))"

text \<open>
  A run of appends, as in \<^verbatim>\<open>for (...) list_append(list, item_i);\<close> with items of
  one type. It stops at the first fault and does not return if one append does not.
\<close>

fun list_append_all ::
  "('a, 'c) memory \<Rightarrow> addr \<Rightarrow> 'a list \<Rightarrow> size_t \<Rightarrow> (fault + ('a, 'c) memory \<times> addr) option" where
  "list_append_all m list [] item_size = Some (Inr (m, list))"
| "list_append_all m list (item # items) item_size =
     (case list_append m list item item_size of
        None \<Rightarrow> None
      | Some (Inl f) \<Rightarrow> Some (Inl f)
      | Some (Inr (m1, list1, r)) \<Rightarrow> list_append_all m1 list1 items item_size)"

subsection \<open>Allocators to run the code with\<close>

text \<open>
  Three allocators that follow the calling convention of the header. The state behind the
  context is the next unused address. \<open>bump_allocator\<close> answers every request with a new
  address, so realloc always moves the block. \<open>inplace_allocator\<close> resizes where the
  block is. \<open>exhausted_allocator\<close> cannot satisfy a realloc: it returns \<open>NULL\<close>.
\<close>

definition bump_allocator :: "nat \<Rightarrow> nat Allocator" where
  "bump_allocator start =
     \<lparr>alloc = (\<lambda>n c. (c, c + unat n + 1)),
      realloc = (\<lambda>p n c. (c, c + unat n + 1)),
      free = (\<lambda>p c. c),
      context = start\<rparr>"

definition inplace_allocator :: "nat \<Rightarrow> nat Allocator" where
  "inplace_allocator start =
     \<lparr>alloc = (\<lambda>n c. (c, c + unat n + 1)),
      realloc = (\<lambda>p n c. (p, c)),
      free = (\<lambda>p c. c),
      context = start\<rparr>"

definition exhausted_allocator :: "nat \<Rightarrow> nat Allocator" where
  "exhausted_allocator start =
     \<lparr>alloc = (\<lambda>n c. (c, c + unat n + 1)),
      realloc = (\<lambda>p n c. (NULL, c)),
      free = (\<lambda>p c. c),
      context = start\<rparr>"

text \<open>A memory without blocks whose default allocator is the given one.\<close>

definition empty_memory :: "'c Allocator \<Rightarrow> ('a, 'c) memory" where
  "empty_memory al = \<lparr>blocks = Map.empty, allocators = [default_allocator \<mapsto> al], calls = []\<rparr>"

subsection \<open>Specification vocabulary\<close>

text \<open>
  The operations on one list as a datatype, so that properties of "every operation" are
  one statement. \<open>PopBack\<close> reads \<^verbatim>\<open>array_header\<close> as \<^verbatim>\<open>list_prelude\<close>. The result
  keeps the memory and the handle and drops the element pointer.
\<close>

datatype 'a list_op =
  Append 'a size_t | Resize size_t | Clear | RemoveAt size_t | PopBack

fun run_op ::
  "('a, 'c) memory \<Rightarrow> addr \<Rightarrow> 'a list_op \<Rightarrow> (fault + ('a, 'c) memory \<times> addr) option" where
  "run_op m list (Append item item_size) =
     (case list_append m list item item_size of
        None \<Rightarrow> None
      | Some (Inl f) \<Rightarrow> Some (Inl f)
      | Some (Inr (m1, list1, r)) \<Rightarrow> Some (Inr (m1, list1)))"
| "run_op m list (Resize desired) =
     (case list_resize m list desired of
        None \<Rightarrow> None
      | Some (Inl f) \<Rightarrow> Some (Inl f)
      | Some (Inr (m1, list1, r)) \<Rightarrow> Some (Inr (m1, list1)))"
| "run_op m list Clear =
     (case list_clear m list of Inl f \<Rightarrow> Some (Inl f) | Inr m1 \<Rightarrow> Some (Inr (m1, list)))"
| "run_op m list (RemoveAt index) =
     (case list_remove_at m list index of Inl f \<Rightarrow> Some (Inl f) | Inr m1 \<Rightarrow> Some (Inr (m1, list)))"
| "run_op m list PopBack =
     (case list_pop_back list_prelude m list of
        Inl f \<Rightarrow> Some (Inl f)
      | Inr m1 \<Rightarrow> Some (Inr (m1, list)))"

text \<open>
  What the caller owes an operation: an index in range for remove-at (so the list is not
  empty), a non-empty list for pop-back.
\<close>

fun op_pre :: "size_t \<Rightarrow> 'a list_op \<Rightarrow> bool" where
  "op_pre len (RemoveAt index) = (index < len)"
| "op_pre len PopBack = (0 < len)"
| "op_pre len _ = True"

text \<open>The invariant of the header: \<open>0 \<le> length \<le> capacity\<close> (the first half holds of any \<^verbatim>\<open>size_t\<close>).\<close>

definition list_inv :: "('a, 'c) memory \<Rightarrow> addr \<Rightarrow> bool" where
  "list_inv m list =
     (case blocks m (list_prelude list) of
        None \<Rightarrow> False
      | Some b \<Rightarrow> 0 \<le> length_p b \<and> length_p b \<le> capacity b)"

text \<open>
  A list in good shape for growing by appends of \<open>item_size\<close> bytes, with capacities up to
  \<open>bound\<close>: the invariant holds, the capacity is at least 1, the block has room for its
  capacity, \<open>item_size\<close> is the size of an element and not 0, and the list's allocator
  is live and its realloc never fails.
\<close>

definition good_list ::
  "('a, 'c) memory \<Rightarrow> addr \<Rightarrow> 'a block \<Rightarrow> size_t \<Rightarrow> nat \<Rightarrow> bool" where
  "good_list m p b item_size bound =
     (blocks m p = Some b \<and> length_p b \<le> capacity b \<and> capacity b \<noteq> 0 \<and>
      unat (capacity b) \<le> length (slots b) \<and> unat (capacity b) \<le> bound \<and>
      stride b = item_size \<and> item_size \<noteq> 0 \<and>
      (\<exists>al. allocators m (allocator b) = Some al \<and>
            (\<forall>q n c. fst (realloc al q n c) \<noteq> NULL)))"

section \<open>Properties\<close>

subsection \<open>Pointers and word arithmetic\<close>

lemma list_prelude_prelude_end [simp]: "list_prelude (prelude_end p) = p"
  by (simp add: list_prelude_def prelude_end_def)

lemma unat_double:
  fixes c :: size_t
  assumes "unat c * 2 < 2 ^ 64"
  shows "unat (c * 2) = unat c * 2"
proof -
  have "unat c * unat (2 :: size_t) < 2 ^ LENGTH(64)" using assms by simp
  then have "unat (c * 2) = unat c * unat (2 :: size_t)" by (simp only: unat_mult_lem)
  then show ?thesis by simp
qed

lemma unat_succ_below:
  fixes x y :: size_t
  assumes "x < y"
  shows "unat (x + 1) = unat x + 1"
proof -
  have "unat x < unat y" using assms by (simp add: word_less_nat_alt)
  moreover have "unat y < 2 ^ LENGTH(64)" by (rule unsigned_less)
  ultimately have "unat x + unat (1 :: size_t) < 2 ^ LENGTH(64)" by simp
  then have "unat (x + 1) = unat x + unat (1 :: size_t)" by (simp only: unat_add_lem)
  then show ?thesis by simp
qed

lemma word_pred_le:
  fixes x :: size_t
  assumes "x \<noteq> 0"
  shows "x - 1 \<le> x"
  using assms by (simp add: word_le_nat_alt unat_minus_one)

lemma new_size_fits:
  fixes nc sz :: size_t
  assumes "unat sizeof_ListPrelude + unat nc * unat sz < 2 ^ 64"
  shows "unat (sizeof_ListPrelude + nc * sz) = unat sizeof_ListPrelude + unat nc * unat sz"
    and "\<not> sizeof_ListPrelude + nc * sz < sizeof_ListPrelude"
proof -
  have "unat nc * unat sz < 2 ^ LENGTH(64)" using assms by simp
  then have m: "unat (nc * sz) = unat nc * unat sz" by (simp only: unat_mult_lem)
  have "unat sizeof_ListPrelude + unat (nc * sz) < 2 ^ LENGTH(64)" using assms m by simp
  then have "unat (sizeof_ListPrelude + nc * sz) = unat sizeof_ListPrelude + unat (nc * sz)"
    by (simp only: unat_add_lem)
  with m show a: "unat (sizeof_ListPrelude + nc * sz) = unat sizeof_ListPrelude + unat nc * unat sz"
    by simp
  then show "\<not> sizeof_ListPrelude + nc * sz < sizeof_ListPrelude"
    by (simp add: word_less_nat_alt)
qed

lemma nslots_exact:
  fixes nc sz :: size_t
  assumes "unat sizeof_ListPrelude + unat nc * unat sz < 2 ^ 64" and "sz \<noteq> 0"
  shows "nslots (sizeof_ListPrelude + nc * sz) sz = unat nc"
proof -
  have "0 < unat sz" using assms(2) by (simp add: unat_gt_0)
  then show ?thesis
    by (simp add: nslots_def new_size_fits(1) [OF assms(1)])
qed

subsection \<open>The buffer across a realloc\<close>

lemma length_resize_slots [simp]: "length (resize_slots n xs) = n"
  by (simp add: resize_slots_def)

lemma nth_resize_slots:
  assumes "i < n" and "i < length xs"
  shows "resize_slots n xs ! i = xs ! i"
  using assms by (simp add: resize_slots_def nth_append)

subsection \<open>The doubling loop\<close>

text \<open>
  As long as the doubled values stay below \<open>2 ^ 64\<close>, the loop stops at the first
  \<open>c * 2 ^ j\<close> that reaches the demand.
\<close>

lemma grow_capacity_least:
  assumes "unat d \<le> unat c * 2 ^ i" and "unat c * 2 ^ i < 2 ^ 64"
  shows "\<exists>j\<le>i. grow_capacity c d = Some (c * 2 ^ j) \<and> unat (c * 2 ^ j) = unat c * 2 ^ j
            \<and> unat d \<le> unat c * 2 ^ j \<and> (\<forall>l<j. unat c * 2 ^ l < unat d)"
  using assms
proof (induction i arbitrary: c)
  case 0
  then have "\<not> c < d" by (simp add: word_less_nat_alt)
  then have "grow_capacity c d = Some c" by (simp add: grow_capacity.simps)
  with 0 show ?case by simp
next
  case (Suc i)
  show ?case
  proof (cases "c < d")
    case False
    then have "grow_capacity c d = Some c" by (simp add: grow_capacity.simps)
    moreover from False have "unat d \<le> unat c" by (simp add: word_less_nat_alt)
    ultimately show ?thesis by (intro exI [of _ 0]) simp
  next
    case True
    have small: "unat c * 2 < 2 ^ 64"
    proof -
      have "unat c * 2 \<le> unat c * 2 ^ Suc i" by simp
      with Suc.prems(2) show ?thesis by linarith
    qed
    have u2: "unat (c * 2) = unat c * 2" by (rule unat_double [OF small])
    have "unat d \<le> unat (c * 2) * 2 ^ i" using Suc.prems(1) by (simp add: u2 mult.assoc)
    moreover have "unat (c * 2) * 2 ^ i < 2 ^ 64" using Suc.prems(2) by (simp add: u2 mult.assoc)
    ultimately obtain j where j: "j \<le> i" "grow_capacity (c * 2) d = Some (c * 2 * 2 ^ j)"
      "unat (c * 2 * 2 ^ j) = unat (c * 2) * 2 ^ j" "unat d \<le> unat (c * 2) * 2 ^ j"
      "\<forall>l<j. unat (c * 2) * 2 ^ l < unat d"
      using Suc.IH [of "c * 2"] by blast
    have g: "grow_capacity c d = Some (c * 2 ^ Suc j)"
      using True j(2) by (subst grow_capacity.simps) (simp add: mult.assoc)
    have "\<forall>l<Suc j. unat c * 2 ^ l < unat d"
    proof (intro allI impI)
      fix l assume l: "l < Suc j"
      show "unat c * 2 ^ l < unat d"
      proof (cases l)
        case 0
        with True show ?thesis by (simp add: word_less_nat_alt)
      next
        case (Suc l')
        with l j(5) have "unat (c * 2) * 2 ^ l' < unat d" by simp
        with Suc show ?thesis by (simp add: u2 mult.assoc)
      qed
    qed
    with g j show ?thesis
      by (intro exI [of _ "Suc j"]) (simp add: u2 mult.assoc)
  qed
qed

text \<open>When the loop returns, it returns a value that meets the demand.\<close>

lemma grow_capacity_result_ge:
  assumes "grow_capacity c d = Some y"
  shows "d \<le> y"
  by (rule grow_capacity.raw_induct [where P = "\<lambda>c d y. d \<le> y", OF _ assms])
    (auto split: if_splits)

text \<open>
  Doubling an even value gives an even value, also when the product wraps around; the
  largest \<^verbatim>\<open>size_t\<close> is odd. So the loop never returns for the demand \<^verbatim>\<open>SIZE_MAX\<close>
  once the candidate is even.
\<close>

lemma grow_capacity_even_max_aux:
  assumes "grow_capacity c d = Some y"
  shows "\<not> (d = - 1 \<and> even c)"
proof (rule grow_capacity.raw_induct [where P = "\<lambda>c d y. \<not> (d = - 1 \<and> even c)", OF _ assms])
  fix grow :: "size_t \<Rightarrow> size_t \<Rightarrow> size_t option" and c d y
  assume IH: "\<And>c d y. grow c d = Some y \<Longrightarrow> \<not> (d = - 1 \<and> even c)"
    and step: "(if c < d then grow (c * 2) d else Some c) = Some y"
  show "\<not> (d = - 1 \<and> even c)"
  proof
    assume a: "d = - 1 \<and> even c"
    then have "c \<noteq> - 1" by auto
    then have "c < d" using a by (simp add: word_order.not_eq_extremum)
    with step have "grow (c * 2) d = Some y" by simp
    from IH [OF this] a show False by simp
  qed
qed

lemma grow_capacity_even_max: "even c \<Longrightarrow> grow_capacity c (- 1) = None"
  using grow_capacity_even_max_aux [of c "- 1"] by (cases "grow_capacity c (- 1)") auto

lemma doubling_reaches:
  fixes c d :: nat
  assumes "1 \<le> c" and "c < d" and "d \<le> 2 ^ 63"
  shows "\<exists>k. d \<le> c * 2 ^ Suc k \<and> c * 2 ^ Suc k < 2 ^ 64"
proof -
  define K where "K = (LEAST k. d \<le> c * 2 ^ k)"
  have "d < 2 ^ d" by (rule less_exp)
  also have "\<dots> \<le> c * 2 ^ d" using assms(1) by simp
  finally have ex: "d \<le> c * 2 ^ d" by simp
  then have K: "d \<le> c * 2 ^ K" unfolding K_def by (rule LeastI)
  have "K \<noteq> 0"
  proof
    assume "K = 0"
    with K assms(2) show False by simp
  qed
  then obtain k where k: "K = Suc k" by (cases K) auto
  have "k < K" using k by simp
  then have "\<not> d \<le> c * 2 ^ k" unfolding K_def by (rule not_less_Least)
  then have "c * 2 ^ k < 2 ^ 63" using assms(3) by linarith
  then have "c * 2 ^ Suc k < 2 ^ 64" by simp
  with K k show ?thesis by blast
qed

subsection \<open>The two paths of list\_ensure\_capacity\<close>

lemma ensure_capacity_no_growth:
  assumes "blocks m p = Some b" and "\<not> capacity b < length_p b + n"
  shows "list_ensure_capacity m (prelude_end p) n sz = Some (Inr (m, prelude_end p))"
  using assms by (simp add: list_ensure_capacity_def)

lemma ensure_capacity_growth:
  assumes "blocks m p = Some b" and "capacity b < length_p b + n"
    and "grow_capacity (capacity b * 2) (length_p b + n) = Some nc"
    and "allocators m (allocator b) = Some al"
    and "realloc al p (sizeof_ListPrelude + nc * sz) (context al) = (q, c')"
  shows "list_ensure_capacity m (prelude_end p) n sz =
    Some (if q = NULL then Inl NullDeref
          else if sizeof_ListPrelude + nc * sz < sizeof_ListPrelude then Inl OutOfBounds
          else Inr (m\<lparr>blocks := ((blocks m)(p := None))
                        (q \<mapsto> b\<lparr>capacity := nc,
                                slots := resize_slots (nslots (sizeof_ListPrelude + nc * sz) (stride b)) (slots b)\<rparr>),
                      allocators := (allocators m)(allocator b \<mapsto> al\<lparr>context := c'\<rparr>),
                      calls := calls m @ [Realloc p (sizeof_ListPrelude + nc * sz)]\<rparr>,
                    prelude_end q))"
  using assms
  by (simp add: list_ensure_capacity_def call_realloc_def store_capacity_def Let_def)
    (auto intro!: memory.equality)

text \<open>
  The loop inside \<^verbatim>\<open>list_ensure_capacity\<close>, entered with twice the capacity: if some
  \<open>capacity * 2 ^ k\<close> below \<open>2 ^ 64\<close> meets the demand, the loop returns the least such.
\<close>

lemma ensure_capacity_growth_least:
  assumes blk: "blocks m p = Some b"
    and lt: "unat (capacity b) < unat (length_p b) + unat d"
    and reach: "unat (length_p b) + unat d \<le> unat (capacity b) * 2 ^ k"
    and rep: "unat (capacity b) * 2 ^ k < 2 ^ 64"
  shows "\<exists>j\<le>k. grow_capacity (capacity b * 2) (length_p b + d) = Some (capacity b * 2 ^ j)
           \<and> capacity b < length_p b + d
           \<and> unat (capacity b * 2 ^ j) = unat (capacity b) * 2 ^ j
           \<and> unat (length_p b) + unat d \<le> unat (capacity b) * 2 ^ j
           \<and> (\<forall>l<j. unat (capacity b) * 2 ^ l < unat (length_p b) + unat d)"
proof -
  let ?c = "capacity b" and ?d = "length_p b + d"
  have "unat (length_p b) + unat d < 2 ^ LENGTH(64)" using reach rep by simp
  then have ud: "unat ?d = unat (length_p b) + unat d" by (simp only: unat_add_lem)
  have cd: "?c < ?d" using lt by (simp add: word_less_nat_alt ud)
  have "k \<noteq> 0"
  proof
    assume "k = 0"
    with lt reach show False by simp
  qed
  then obtain k0 where k0: "k = Suc k0" by (cases k) auto
  have "unat ?c * 2 \<le> unat ?c * 2 ^ k" by (simp add: k0)
  with rep have "unat ?c * 2 < 2 ^ 64" by linarith
  then have u2: "unat (?c * 2) = unat ?c * 2" by (rule unat_double)
  have "unat ?d \<le> unat (?c * 2) * 2 ^ k0" "unat (?c * 2) * 2 ^ k0 < 2 ^ 64"
    using reach rep by (simp_all add: u2 ud k0 mult.assoc)
  from grow_capacity_least [OF this] obtain j0 where j0: "j0 \<le> k0"
    "grow_capacity (?c * 2) ?d = Some (?c * 2 * 2 ^ j0)"
    "unat (?c * 2 * 2 ^ j0) = unat (?c * 2) * 2 ^ j0"
    "unat ?d \<le> unat (?c * 2) * 2 ^ j0"
    "\<forall>l<j0. unat (?c * 2) * 2 ^ l < unat ?d" by blast
  have "\<forall>l<Suc j0. unat ?c * 2 ^ l < unat (length_p b) + unat d"
  proof (intro allI impI)
    fix l assume l: "l < Suc j0"
    show "unat ?c * 2 ^ l < unat (length_p b) + unat d"
    proof (cases l)
      case 0
      with lt show ?thesis by simp
    next
      case (Suc l')
      with l j0(5) have "unat (?c * 2) * 2 ^ l' < unat ?d" by simp
      with Suc show ?thesis by (simp add: u2 ud mult.assoc)
    qed
  qed
  with j0 cd show ?thesis
    by (intro exI [of _ "Suc j0"]) (simp add: u2 ud k0 mult.assoc)
qed

lemma ensure_capacity_cases:
  assumes "list_ensure_capacity m l n sz = Some (Inr (m', l'))"
    and "blocks m (list_prelude l) = Some b"
  obtains (same) "\<not> capacity b < length_p b + n" and "m' = m"
      and "l' = prelude_end (list_prelude l)"
  | (grown) nc q al c' where "capacity b < length_p b + n"
      and "grow_capacity (capacity b * 2) (length_p b + n) = Some nc"
      and "allocators m (allocator b) = Some al"
      and "realloc al (list_prelude l) (sizeof_ListPrelude + nc * sz) (context al) = (q, c')"
      and "q \<noteq> NULL" and "\<not> sizeof_ListPrelude + nc * sz < sizeof_ListPrelude"
      and "l' = prelude_end q"
      and "m' = m\<lparr>blocks := ((blocks m)(list_prelude l := None))
                        (q \<mapsto> b\<lparr>capacity := nc,
                                slots := resize_slots (nslots (sizeof_ListPrelude + nc * sz) (stride b)) (slots b)\<rparr>),
                      allocators := (allocators m)(allocator b \<mapsto> al\<lparr>context := c'\<rparr>),
                      calls := calls m @ [Realloc (list_prelude l) (sizeof_ListPrelude + nc * sz)]\<rparr>"
proof (cases "capacity b < length_p b + n")
  case False
  with assms have "m' = m" "l' = prelude_end (list_prelude l)"
    by (simp_all add: list_ensure_capacity_def)
  with False show ?thesis by (rule same)
next
  case True
  with assms obtain nc where nc: "grow_capacity (capacity b * 2) (length_p b + n) = Some nc"
    by (auto simp: list_ensure_capacity_def Let_def split: option.splits)
  from assms True nc obtain al where al: "allocators m (allocator b) = Some al"
    by (auto simp: list_ensure_capacity_def call_realloc_def Let_def split: option.splits)
  obtain q c' where r: "realloc al (list_prelude l) (sizeof_ListPrelude + nc * sz) (context al) = (q, c')"
    by (cases "realloc al (list_prelude l) (sizeof_ListPrelude + nc * sz) (context al)")
  have pe: "prelude_end (list_prelude l) = prelude_end (list_prelude l)" ..
  have blk: "blocks m (list_prelude l) = Some b" by (rule assms(2))
  have eq: "list_ensure_capacity m l n sz =
      list_ensure_capacity m (prelude_end (list_prelude l)) n sz"
    by (simp add: list_ensure_capacity_def)
  note g = ensure_capacity_growth [OF blk True nc al r]
  from assms(1) have res: "(if q = NULL then Inl NullDeref
          else if sizeof_ListPrelude + nc * sz < sizeof_ListPrelude then Inl OutOfBounds
          else Inr (m\<lparr>blocks := ((blocks m)(list_prelude l := None))
                        (q \<mapsto> b\<lparr>capacity := nc,
                                slots := resize_slots (nslots (sizeof_ListPrelude + nc * sz) (stride b)) (slots b)\<rparr>),
                      allocators := (allocators m)(allocator b \<mapsto> al\<lparr>context := c'\<rparr>),
                      calls := calls m @ [Realloc (list_prelude l) (sizeof_ListPrelude + nc * sz)]\<rparr>,
                    prelude_end q)) = Inr (m', l')"
    unfolding eq g by simp
  then have q: "q \<noteq> NULL" by (auto split: if_splits)
  from res q have fits: "\<not> sizeof_ListPrelude + nc * sz < sizeof_ListPrelude"
    by (auto split: if_splits)
  from res q fits have "l' = prelude_end q" 
    and "m' = m\<lparr>blocks := ((blocks m)(list_prelude l := None))
                        (q \<mapsto> b\<lparr>capacity := nc,
                                slots := resize_slots (nslots (sizeof_ListPrelude + nc * sz) (stride b)) (slots b)\<rparr>),
                      allocators := (allocators m)(allocator b \<mapsto> al\<lparr>context := c'\<rparr>),
                      calls := calls m @ [Realloc (list_prelude l) (sizeof_ListPrelude + nc * sz)]\<rparr>"
    by simp_all
  with True nc al r q fits show ?thesis by (rule grown)
qed

text \<open>What every returning call guarantees about the block behind the new handle.\<close>

lemma ensure_capacity_block:
  assumes "list_ensure_capacity m l n sz = Some (Inr (m', l'))"
    and "blocks m (list_prelude l) = Some b"
  shows "\<exists>b'. blocks m' (list_prelude l') = Some b' \<and> length_p b' = length_p b
           \<and> allocator b' = allocator b \<and> stride b' = stride b
           \<and> length_p b + n \<le> capacity b'"
  using assms
proof (cases rule: ensure_capacity_cases)
  case same
  with assms(2) show ?thesis by (simp add: not_less)
next
  case (grown nc q al c')
  from grown(2) have "length_p b + n \<le> nc" by (rule grow_capacity_result_ge)
  with grown show ?thesis by simp
qed

subsection \<open>The invariant, operation by operation\<close>

lemma create_list_inv:
  assumes "create_list m0 st cap al = Inr (m, l)" and "l \<noteq> NULL"
  shows "list_inv m l"
  using assms
  by (auto simp: create_list_def call_alloc_def list_inv_def Let_def prelude_end_def
      list_prelude_def
      split: option.splits prod.splits if_splits sum.splits)

lemma list_append_inv:
  assumes "list_append m l v sz = Some (Inr (m', l', r))"
  shows "list_inv m' l'"
proof -
  from assms obtain m1 where e: "list_ensure_capacity m l 1 sz = Some (Inr (m1, l'))"
    by (auto simp: list_append_def split: option.splits sum.splits prod.splits)
  from e obtain b where b: "blocks m (list_prelude l) = Some b"
    by (auto simp: list_ensure_capacity_def Let_def split: option.splits)
  from ensure_capacity_block [OF e b] obtain b1 where b1: "blocks m1 (list_prelude l') = Some b1"
    "length_p b1 = length_p b" "length_p b + 1 \<le> capacity b1" by blast
  from assms e b1 show ?thesis
    by (auto simp: list_append_def list_set_def list_inv_def
        split: option.splits sum.splits prod.splits if_splits)
qed

lemma list_resize_inv:
  assumes "list_resize m l k = Some (Inr (m', l', r))"
  shows "list_inv m' l'"
proof -
  from assms obtain m1 where e: "list_ensure_capacity m l k (sizeof_elem m l) = Some (Inr (m1, l'))"
    by (auto simp: list_resize_def Let_def split: option.splits sum.splits prod.splits)
  from e obtain b where b: "blocks m (list_prelude l) = Some b"
    by (auto simp: list_ensure_capacity_def Let_def split: option.splits)
  from ensure_capacity_block [OF e b] obtain b1 where b1: "blocks m1 (list_prelude l') = Some b1"
    "length_p b1 = length_p b" "length_p b + k \<le> capacity b1" by blast
  from assms e b1 show ?thesis
    by (auto simp: list_resize_def list_inv_def Let_def
        split: option.splits sum.splits prod.splits if_splits)
qed

lemma list_clear_inv:
  assumes "list_clear m l = Inr m'"
  shows "list_inv m' l"
  using assms by (auto simp: list_clear_def list_inv_def split: option.splits)

lemma list_remove_at_inv:
  assumes "list_remove_at m l i = Inr m'" and "list_inv m l"
    and "list_len m l = Inr len" and "i < len"
  shows "list_inv m' l"
proof -
  from assms(2) obtain b where b: "blocks m (list_prelude l) = Some b"
    "length_p b \<le> capacity b"
    by (auto simp: list_inv_def split: option.splits)
  from assms(3,4) b have "length_p b \<noteq> 0" by (auto simp: list_len_def)
  then have "length_p b - 1 \<le> length_p b" by (rule word_pred_le)
  with b(2) have "length_p b - 1 \<le> capacity b" by simp
  with assms(1) b show ?thesis
    by (auto simp: list_remove_at_def list_inv_def Let_def split: if_splits)
qed

lemma list_pop_back_inv:
  assumes "list_pop_back list_prelude m l = Inr m'" and "list_inv m l"
    and "list_len m l = Inr len" and "0 < len"
  shows "list_inv m' l"
proof -
  from assms(2) obtain b where b: "blocks m (list_prelude l) = Some b"
    "length_p b \<le> capacity b"
    by (auto simp: list_inv_def split: option.splits)
  from assms(3,4) b have "length_p b \<noteq> 0" by (auto simp: list_len_def)
  then have "length_p b - 1 \<le> length_p b" by (rule word_pred_le)
  with b(2) have "length_p b - 1 \<le> capacity b" by simp
  with assms(1) b show ?thesis
    by (auto simp: list_pop_back_def list_inv_def)
qed

subsection \<open>Appends that do not grow the list\<close>

lemma append_within_capacity:
  assumes blk: "blocks m p = Some b" and lt: "length_p b < capacity b"
    and wf: "unat (length_p b) < length (slots b)"
  shows "list_append m (prelude_end p) v sz =
    Some (Inr (m\<lparr>blocks := (blocks m)(p \<mapsto>
                   b\<lparr>length_p := length_p b + 1,
                     slots := (slots b)[unat (length_p b) := Some v]\<rparr>)\<rparr>,
               prelude_end p, (prelude_end p, length_p b)))"
proof -
  from lt have "length_p b + 1 \<le> capacity b" by (rule inc_le)
  then have "\<not> capacity b < length_p b + 1" by simp
  with blk have e: "list_ensure_capacity m (prelude_end p) 1 sz = Some (Inr (m, prelude_end p))"
    by (rule ensure_capacity_no_growth)
  show ?thesis
    using blk wf by (simp add: list_append_def e list_set_def) (auto intro!: memory.equality)
qed

lemma append_all_within_capacity:
  assumes "blocks m p = Some b"
    and "unat (length_p b) + length items \<le> unat (capacity b)"
    and "unat (capacity b) \<le> length (slots b)"
  shows "\<exists>b'. list_append_all m (prelude_end p) items sz =
              Some (Inr (m\<lparr>blocks := (blocks m)(p \<mapsto> b')\<rparr>, prelude_end p))
           \<and> capacity b' = capacity b \<and> allocator b' = allocator b \<and> stride b' = stride b
           \<and> unat (length_p b') = unat (length_p b) + length items
           \<and> length (slots b') = length (slots b)
           \<and> (\<forall>i<length items. slots b' ! (unat (length_p b) + i) = Some (items ! i))
           \<and> (\<forall>i<unat (length_p b). slots b' ! i = slots b ! i)"
  using assms
proof (induction items arbitrary: m b)
  case Nil
  have "(blocks m)(p \<mapsto> b) = blocks m" using Nil(1) by (rule map_upd_triv)
  then show ?case by (intro exI [of _ b]) simp
next
  case (Cons v items)
  let ?n = "unat (length_p b)"
  let ?b1 = "b\<lparr>length_p := length_p b + 1, slots := (slots b)[?n := Some v]\<rparr>"
  let ?m1 = "m\<lparr>blocks := (blocks m)(p \<mapsto> ?b1)\<rparr>"
  from Cons.prems(2) have "?n < unat (capacity b)" by simp
  then have lt: "length_p b < capacity b" by (simp add: word_less_nat_alt)
  from \<open>?n < unat (capacity b)\<close> Cons.prems(3) have wf: "?n < length (slots b)" by linarith
  have app: "list_append m (prelude_end p) v sz =
      Some (Inr (?m1, prelude_end p, (prelude_end p, length_p b)))"
    by (rule append_within_capacity [OF Cons.prems(1) lt wf])
  have n1: "unat (length_p ?b1) = ?n + 1" using unat_succ_below [OF lt] by simp
  have b1: "blocks ?m1 p = Some ?b1" by simp
  have c1: "unat (length_p ?b1) + length items \<le> unat (capacity ?b1)"
    using Cons.prems(2) n1 by simp
  have s1: "unat (capacity ?b1) \<le> length (slots ?b1)" using Cons.prems(3) by simp
  from Cons.IH [OF b1 c1 s1] obtain b' where b':
    "list_append_all ?m1 (prelude_end p) items sz =
       Some (Inr (?m1\<lparr>blocks := (blocks ?m1)(p \<mapsto> b')\<rparr>, prelude_end p))"
    "capacity b' = capacity ?b1" "allocator b' = allocator ?b1" "stride b' = stride ?b1"
    "unat (length_p b') = unat (length_p ?b1) + length items"
    "length (slots b') = length (slots ?b1)"
    "\<forall>i<length items. slots b' ! (unat (length_p ?b1) + i) = Some (items ! i)"
    "\<forall>i<unat (length_p ?b1). slots b' ! i = slots ?b1 ! i"
    by blast
  have m': "?m1\<lparr>blocks := (blocks ?m1)(p \<mapsto> b')\<rparr> = m\<lparr>blocks := (blocks m)(p \<mapsto> b')\<rparr>"
    by simp
  have new: "\<forall>i<length (v # items). slots b' ! (?n + i) = Some ((v # items) ! i)"
  proof (intro allI impI)
    fix i assume i: "i < length (v # items)"
    show "slots b' ! (?n + i) = Some ((v # items) ! i)"
    proof (cases i)
      case 0
      have "slots b' ! ?n = slots ?b1 ! ?n" using b'(8) n1 by simp
      with wf 0 show ?thesis by simp
    next
      case (Suc j)
      with i have "j < length items" by simp
      with b'(7) have "slots b' ! (unat (length_p ?b1) + j) = Some (items ! j)" by blast
      with Suc n1 show ?thesis by simp
    qed
  qed
  have old: "\<forall>i<?n. slots b' ! i = slots b ! i"
  proof (intro allI impI)
    fix i assume i: "i < ?n"
    with b'(8) n1 have "slots b' ! i = slots ?b1 ! i" by simp
    with i show "slots b' ! i = slots b ! i" by simp
  qed
  have run: "list_append_all m (prelude_end p) (v # items) sz =
      Some (Inr (m\<lparr>blocks := (blocks m)(p \<mapsto> b')\<rparr>, prelude_end p))"
    by (simp only: list_append_all.simps app option.case sum.case prod.case b'(1) m')
  have keep: "capacity b' = capacity b" "allocator b' = allocator b" "stride b' = stride b"
    "length (slots b') = length (slots b)"
    using b'(2,3,4,6) by simp_all
  have len: "unat (length_p b') = ?n + length (v # items)" using b'(5) n1 by simp
  from run keep len new old show ?case by blast
qed

subsection \<open>Appends of items of the element's size\<close>

text \<open>
  One append to a list in good shape, with room under the bound for the doubled
  capacity: it returns, writes the item into slot \<open>length\<close>, increments the length,
  returns a pointer to that slot, keeps the other live slots and the good shape.
\<close>

lemma append_step:
  assumes good: "good_list m p b sz B"
    and room: "2 * (unat (length_p b) + 1) \<le> B"
    and fits: "unat sizeof_ListPrelude + B * unat sz < 2 ^ 64"
  shows "\<exists>m1 p1 b1.
      list_append m (prelude_end p) v sz =
        Some (Inr (m1, prelude_end p1, (prelude_end p1, length_p b)))
    \<and> good_list m1 p1 b1 sz B
    \<and> unat (length_p b1) = unat (length_p b) + 1
    \<and> (\<forall>i<unat (length_p b). slots b1 ! i = slots b ! i)
    \<and> slots b1 ! unat (length_p b) = Some v"
proof -
  from good have blk: "blocks m p = Some b" and inv: "length_p b \<le> capacity b"
    and c0: "capacity b \<noteq> 0" and sl: "unat (capacity b) \<le> length (slots b)"
    and cB: "unat (capacity b) \<le> B" and st: "stride b = sz" and sz0: "sz \<noteq> 0"
    by (simp_all add: good_list_def)
  from good obtain al where al: "allocators m (allocator b) = Some al"
    and nf: "\<forall>q n c. fst (realloc al q n c) \<noteq> NULL"
    by (auto simp: good_list_def)
  let ?n = "unat (length_p b)"
  have sz1: "1 \<le> unat sz" using sz0 by (simp add: unat_gt_0 Suc_le_eq)
  show ?thesis
  proof (cases "length_p b < capacity b")
    case True
    then have n: "?n < unat (capacity b)" by (simp add: word_less_nat_alt)
    with sl have wf: "?n < length (slots b)" by linarith
    let ?b1 = "b\<lparr>length_p := length_p b + 1, slots := (slots b)[?n := Some v]\<rparr>"
    let ?m1 = "m\<lparr>blocks := (blocks m)(p \<mapsto> ?b1)\<rparr>"
    have app: "list_append m (prelude_end p) v sz =
        Some (Inr (?m1, prelude_end p, (prelude_end p, length_p b)))"
      by (rule append_within_capacity [OF blk True wf])
    have n1: "unat (length_p ?b1) = ?n + 1" using unat_succ_below [OF True] by simp
    have "length_p b + 1 \<le> capacity b" using True by (rule inc_le)
    then have g: "good_list ?m1 p ?b1 sz B"
      using c0 sl cB st sz0 al nf by (auto simp: good_list_def)
    have "\<forall>i<?n. slots ?b1 ! i = slots b ! i" by simp
    moreover have "slots ?b1 ! ?n = Some v" using wf by simp
    ultimately show ?thesis using app g n1 by blast
  next
    case False
    with inv have eq: "length_p b = capacity b" by simp
    let ?c = "capacity b"
    have c1: "1 \<le> unat ?c" using c0 by (simp add: unat_gt_0 Suc_le_eq)
    have "B * 1 \<le> B * unat sz" using sz1 by (rule mult_le_mono2)
    then have "B \<le> B * unat sz" by (simp only: mult_1_right)
    with fits have B64: "B < 2 ^ 64" by linarith
    from room eq have r2: "2 * unat ?c + 2 \<le> B" by simp
    with B64 have "unat ?c * 2 < 2 ^ 64" by simp
    then have u2: "unat (?c * 2) = unat ?c * 2" by (rule unat_double)
    have "unat ?c + unat (1 :: size_t) < 2 ^ LENGTH(64)" using r2 B64 by simp
    then have "unat (?c + 1) = unat ?c + unat (1 :: size_t)" by (simp only: unat_add_lem)
    then have u1: "unat (?c + 1) = unat ?c + 1" by simp
    have lt: "capacity b < length_p b + 1" by (simp add: eq word_less_nat_alt u1)
    have "\<not> ?c * 2 < ?c + 1" using c1 by (simp add: word_less_nat_alt u1 u2)
    then have grow: "grow_capacity (capacity b * 2) (length_p b + 1) = Some (?c * 2)"
      by (simp add: eq grow_capacity.simps)
    let ?size = "sizeof_ListPrelude + ?c * 2 * sz"
    obtain q c' where r: "realloc al p ?size (context al) = (q, c')"
      by (cases "realloc al p ?size (context al)")
    have q: "q \<noteq> NULL" using nf r by (metis fst_conv)
    have "unat (?c * 2) \<le> B" using r2 u2 by simp
    then have "unat (?c * 2) * unat sz \<le> B * unat sz" by (rule mult_le_mono1)
    with fits have f2: "unat sizeof_ListPrelude + unat (?c * 2) * unat sz < 2 ^ 64" by linarith
    then have nofit: "\<not> ?size < sizeof_ListPrelude" by (rule new_size_fits(2))
    have ns: "nslots ?size (stride b) = unat (?c * 2)"
      using nslots_exact [OF f2 sz0] st by simp
    let ?b0 = "b\<lparr>capacity := ?c * 2, slots := resize_slots (unat (?c * 2)) (slots b)\<rparr>"
    let ?m0 = "m\<lparr>blocks := ((blocks m)(p := None))(q \<mapsto> ?b0),
                 allocators := (allocators m)(allocator b \<mapsto> al\<lparr>context := c'\<rparr>),
                 calls := calls m @ [Realloc p ?size]\<rparr>"
    have ens: "list_ensure_capacity m (prelude_end p) 1 sz = Some (Inr (?m0, prelude_end q))"
      using ensure_capacity_growth [OF blk lt grow al r] q nofit ns by simp
    let ?b1 = "?b0\<lparr>slots := (slots ?b0)[?n := Some v], length_p := length_p b + 1\<rparr>"
    let ?m1 = "?m0\<lparr>blocks := (blocks ?m0)(q \<mapsto> ?b1)\<rparr>"
    have nlt: "?n < unat (?c * 2)" using c1 by (simp add: eq u2)
    have app: "list_append m (prelude_end p) v sz =
        Some (Inr (?m1, prelude_end q, (prelude_end q, length_p b)))"
      using nlt by (simp add: list_append_def ens list_set_def)
    have n1: "unat (length_p ?b1) = ?n + 1" by (simp add: eq u1)
    have "length_p b + 1 \<le> ?c * 2" using c1 by (simp add: eq word_le_nat_alt u1 u2)
    moreover have "?c * 2 \<noteq> 0" using c1 u2 by (metis mult_is_0 not_one_le_zero unat_eq_zero zero_neq_numeral)
    moreover have "\<forall>q n c. fst (realloc (al\<lparr>context := c'\<rparr>) q n c) \<noteq> NULL" using nf by simp
    ultimately have g: "good_list ?m1 q ?b1 sz B"
      using \<open>unat (?c * 2) \<le> B\<close> st sz0 by (simp add: good_list_def)
    have old: "\<forall>i<?n. slots ?b1 ! i = slots b ! i"
    proof (intro allI impI)
      fix i assume i: "i < ?n"
      with nlt have "i < unat (?c * 2)" by simp
      moreover from i sl eq have "i < length (slots b)" by simp
      ultimately show "slots ?b1 ! i = slots b ! i" using i by (simp add: nth_resize_slots)
    qed
    have new: "slots ?b1 ! ?n = Some v" using nlt by simp
    from app g n1 old new show ?thesis by blast
  qed
qed

lemma append_all_good:
  assumes "good_list m p b sz B"
    and "2 * (unat (length_p b) + length items) \<le> B"
    and "unat sizeof_ListPrelude + B * unat sz < 2 ^ 64"
  shows "\<exists>m' p' b'.
      list_append_all m (prelude_end p) items sz = Some (Inr (m', prelude_end p'))
    \<and> good_list m' p' b' sz B
    \<and> unat (length_p b') = unat (length_p b) + length items
    \<and> (\<forall>i<unat (length_p b). slots b' ! i = slots b ! i)
    \<and> (\<forall>i<length items. slots b' ! (unat (length_p b) + i) = Some (items ! i))"
  using assms
proof (induction items arbitrary: m p b)
  case Nil
  then show ?case by auto
next
  case (Cons v items)
  let ?n = "unat (length_p b)"
  from Cons.prems(2) have room: "2 * (?n + 1) \<le> B" by simp
  from append_step [OF Cons.prems(1) room Cons.prems(3), of v] obtain m1 p1 b1 where s:
    "list_append m (prelude_end p) v sz =
       Some (Inr (m1, prelude_end p1, (prelude_end p1, length_p b)))"
    "good_list m1 p1 b1 sz B" "unat (length_p b1) = ?n + 1"
    "\<forall>i<?n. slots b1 ! i = slots b ! i" "slots b1 ! ?n = Some v"
    by blast
  have room1: "2 * (unat (length_p b1) + length items) \<le> B" using Cons.prems(2) s(3) by simp
  from Cons.IH [OF s(2) room1 Cons.prems(3)] obtain m' p' b' where r:
    "list_append_all m1 (prelude_end p1) items sz = Some (Inr (m', prelude_end p'))"
    "good_list m' p' b' sz B"
    "unat (length_p b') = unat (length_p b1) + length items"
    "\<forall>i<unat (length_p b1). slots b' ! i = slots b1 ! i"
    "\<forall>i<length items. slots b' ! (unat (length_p b1) + i) = Some (items ! i)"
    by blast
  have run: "list_append_all m (prelude_end p) (v # items) sz = Some (Inr (m', prelude_end p'))"
    by (simp only: list_append_all.simps s(1) option.case sum.case prod.case r(1))
  have len: "unat (length_p b') = ?n + length (v # items)" using r(3) s(3) by simp
  have old: "\<forall>i<?n. slots b' ! i = slots b ! i"
  proof (intro allI impI)
    fix i assume i: "i < ?n"
    with r(4) s(3) have "slots b' ! i = slots b1 ! i" by simp
    with s(4) i show "slots b' ! i = slots b ! i" by simp
  qed
  have new: "\<forall>i<length (v # items). slots b' ! (?n + i) = Some ((v # items) ! i)"
  proof (intro allI impI)
    fix i assume i: "i < length (v # items)"
    show "slots b' ! (?n + i) = Some ((v # items) ! i)"
    proof (cases i)
      case 0
      have "slots b' ! ?n = slots b1 ! ?n" using r(4) s(3) by simp
      with s(5) 0 show ?thesis by simp
    next
      case (Suc j)
      with i have "j < length items" by simp
      with r(5) have "slots b' ! (unat (length_p b1) + j) = Some (items ! j)" by blast
      with Suc s(3) show ?thesis by simp
    qed
  qed
  from run r(2) len old new show ?case by blast
qed

text \<open>
  Appending \<open>N\<close> items of the element's size to an empty list in good shape: all appends
  return, the length is \<open>N\<close>, the capacity is at least \<open>N\<close>, and index \<open>i\<close> reads the
  \<open>i\<close>-th item.
\<close>

lemma append_all_from_empty:
  assumes good: "good_list m p b sz B" and empty: "length_p b = 0"
    and room: "2 * length items \<le> B"
    and fits: "unat sizeof_ListPrelude + B * unat sz < 2 ^ 64"
  shows "\<exists>m' l' c.
      list_append_all m (prelude_end p) items sz = Some (Inr (m', l'))
    \<and> list_len m' l' = Inr (of_nat (length items))
    \<and> list_cap m' l' = Inr c \<and> length items \<le> unat c
    \<and> (\<forall>i<length items. list_get m' l' (of_nat i) = Inr (Some (items ! i)))"
proof -
  have room': "2 * (unat (length_p b) + length items) \<le> B" using room empty by simp
  from append_all_good [OF good room' fits] obtain m' p' b' where r:
    "list_append_all m (prelude_end p) items sz = Some (Inr (m', prelude_end p'))"
    "good_list m' p' b' sz B"
    "unat (length_p b') = unat (length_p b) + length items"
    "\<forall>i<length items. slots b' ! (unat (length_p b) + i) = Some (items ! i)"
    by blast
  from r(2) have blk: "blocks m' p' = Some b'" and inv: "length_p b' \<le> capacity b'"
    and sl: "unat (capacity b') \<le> length (slots b')"
    by (simp_all add: good_list_def)
  have n: "unat (length_p b') = length items" using r(3) empty by simp
  have "of_nat (unat (length_p b')) = length_p b'" by simp
  with n have "of_nat (length items) = length_p b'" by simp
  then have len: "list_len m' (prelude_end p') = Inr (of_nat (length items))"
    using blk by (simp add: list_len_def)
  have cap: "list_cap m' (prelude_end p') = Inr (capacity b')"
    using blk by (simp add: list_cap_def)
  have nc: "length items \<le> unat (capacity b')" using inv n by (simp add: word_le_nat_alt)
  have get: "\<forall>i<length items. list_get m' (prelude_end p') (of_nat i) = Inr (Some (items ! i))"
  proof (intro allI impI)
    fix i assume i: "i < length items"
    have "unat (capacity b') < 2 ^ LENGTH(64)" by (rule unsigned_less)
    with i nc have "i < 2 ^ LENGTH(64)" by linarith
    then have ui: "unat (of_nat i :: size_t) = i" by (simp add: unat_of_nat)
    from i nc sl have il: "i < length (slots b')" by linarith
    from r(4) i empty have "slots b' ! i = Some (items ! i)" by simp
    with blk il ui show "list_get m' (prelude_end p') (of_nat i) = Inr (Some (items ! i))"
      by (simp add: list_get_def)
  qed
  from r(1) len cap nc get show ?thesis by blast
qed

text \<open>\<^verbatim>\<open>create_list\<close> with a capacity of at least 1 gives an empty list in good shape.\<close>

lemma create_list_good:
  assumes al: "allocators m a = Some al" and a: "a \<noteq> NULL"
    and ok: "\<forall>n c. fst (alloc al n c) \<noteq> NULL" and nf: "\<forall>q n c. fst (realloc al q n c) \<noteq> NULL"
    and cap: "cap \<noteq> 0" and sz: "sz \<noteq> 0"
    and fits: "unat sizeof_ListPrelude + unat cap * unat sz < 2 ^ 64"
  shows "\<exists>m' p b. create_list m sz cap a = Inr (m', prelude_end p)
           \<and> good_list m' p b sz (unat cap) \<and> length_p b = 0 \<and> capacity b = cap"
proof -
  let ?size = "sizeof_ListPrelude + sz * cap"
  obtain p c' where r: "alloc al ?size (context al) = (p, c')"
    by (cases "alloc al ?size (context al)")
  have p: "p \<noteq> NULL" using ok r by (metis fst_conv)
  have f: "unat sizeof_ListPrelude + unat cap * unat sz < 2 ^ 64" by (rule fits)
  have comm: "sz * cap = cap * sz" by (rule mult.commute)
  have nofit: "\<not> ?size < sizeof_ListPrelude" unfolding comm by (rule new_size_fits(2) [OF f])
  have ns: "nslots ?size sz = unat cap" unfolding comm by (rule nslots_exact [OF f sz])
  let ?b = "\<lparr>capacity = cap, length_p = 0, allocator = a, stride = sz,
             slots = replicate (unat cap) None\<rparr>"
  let ?m' = "m\<lparr>blocks := (blocks m)(p \<mapsto> ?b),
               allocators := (allocators m)(a \<mapsto> al\<lparr>context := c'\<rparr>),
               calls := calls m @ [Alloc ?size]\<rparr>"
  have c: "create_list m sz cap a = Inr (?m', prelude_end p)"
    using al a r p nofit ns by (simp add: create_list_def call_alloc_def Let_def)
  have "\<forall>q n c. fst (realloc (al\<lparr>context := c'\<rparr>) q n c) \<noteq> NULL" using nf by simp
  then have g: "good_list ?m' p ?b sz (unat cap)" using cap sz by (simp add: good_list_def)
  from c g show ?thesis by (intro exI [of _ ?m'] exI [of _ p] exI [of _ ?b]) simp
qed

subsection \<open>Pop-back with list\_prelude as the lookup\<close>

text \<open>
  With \<^verbatim>\<open>list_prelude\<close> in the place of \<^verbatim>\<open>array_header\<close>, the pop-back macro writes
  \<open>length - 1\<close> into the list's own prelude and changes nothing else.
\<close>

lemma list_pop_back_list_prelude:
  assumes "blocks m p = Some b" and "0 < length_p b"
  shows "list_pop_back list_prelude m (prelude_end p) =
           Inr (m\<lparr>blocks := (blocks m)(p \<mapsto> b\<lparr>length_p := length_p b - 1\<rparr>)\<rparr>)"
    and "unat (length_p b - 1) = unat (length_p b) - 1"
proof -
  show "list_pop_back list_prelude m (prelude_end p) =
           Inr (m\<lparr>blocks := (blocks m)(p \<mapsto> b\<lparr>length_p := length_p b - 1\<rparr>)\<rparr>)"
    using assms(1) by (simp add: list_pop_back_def)
  from assms(2) have "length_p b \<noteq> 0" by auto
  then show "unat (length_p b - 1) = unat (length_p b) - 1" by (rule unat_minus_one)
qed

subsection \<open>Running the code on concrete lists\<close>

text \<open>Rules that let the simplifier run list operations at numeral positions.\<close>

lemma replicate_numeral: "replicate (numeral k) x = x # replicate (pred_numeral k) x"
  by (simp add: numeral_eq_Suc)

lemma list_update_Cons_numeral: "(x # xs)[numeral k := y] = x # xs[pred_numeral k := y]"
  by (simp add: numeral_eq_Suc)

lemmas run_defs =
  list_new_def create_list_def call_alloc_def call_realloc_def store_capacity_def
  empty_memory_def bump_allocator_def inplace_allocator_def exhausted_allocator_def
  DEFAULT_LIST_CAPACITY_def sizeof_ListPrelude_def default_allocator_def nslots_def
  prelude_end_def list_prelude_def resize_slots_def Let_def

lemmas op_defs =
  list_append_def list_resize_def list_set_def list_get_def list_len_def list_cap_def
  list_clear_def list_remove_at_def list_pop_back_def sizeof_elem_def
  list_ensure_capacity_def grow_capacity.simps replicate_numeral list_update_Cons_numeral

text \<open>\<^verbatim>\<open>int* list = list_new(int);\<close> with the bump allocator as default allocator.\<close>

lemma list_new_int:
  "list_new (empty_memory (bump_allocator 64) :: (nat, nat) memory) 4 =
     Inr (\<lparr>blocks = [64 \<mapsto> \<lparr>capacity = 16, length_p = 0, allocator = 8, stride = 4,
                              slots = replicate 16 None\<rparr>],
           allocators = [8 \<mapsto> (bump_allocator 64)\<lparr>context := 161\<rparr>],
           calls = [Alloc 96]\<rparr>, 96)"
  by (simp add: run_defs)

section \<open>The claims\<close>

subsection \<open>C1: a failed reallocation\<close>

text \<open>
  C1 does not hold of the code; this is what the code does instead. Whenever the block
  has to grow and the allocator's realloc returns \<open>NULL\<close>, \<^verbatim>\<open>list_ensure_capacity\<close>
  stores the new capacity through the null pointer: the call ends in undefined behaviour
  (\<open>NullDeref\<close>), not in a failure result, and so do \<^verbatim>\<open>list_append\<close> and
  \<^verbatim>\<open>list_resize\<close>, which reach it. \<^verbatim>\<open>create_list\<close> does check the result of alloc.
\<close>

theorem ensure_capacity_realloc_failure:
  assumes blk: "blocks m p = Some b" and lt: "capacity b < length_p b + n"
    and grow: "grow_capacity (capacity b * 2) (length_p b + n) = Some nc"
    and al: "allocators m (allocator b) = Some al"
    and null: "fst (realloc al p (sizeof_ListPrelude + nc * sz) (context al)) = NULL"
  shows "list_ensure_capacity m (prelude_end p) n sz = Some (Inl NullDeref)
       \<and> (n = 1 \<longrightarrow> list_append m (prelude_end p) item sz = Some (Inl NullDeref))
       \<and> (sz = stride b \<longrightarrow> list_resize m (prelude_end p) n = Some (Inl NullDeref))"
proof -
  obtain q c' where r: "realloc al p (sizeof_ListPrelude + nc * sz) (context al) = (q, c')"
    by (cases "realloc al p (sizeof_ListPrelude + nc * sz) (context al)")
  with null have q: "q = NULL" by simp
  have e: "list_ensure_capacity m (prelude_end p) n sz = Some (Inl NullDeref)"
    using ensure_capacity_growth [OF blk lt grow al r] q by simp
  have a: "list_append m (prelude_end p) item sz = Some (Inl NullDeref)" if "n = 1"
    using e that by (simp add: list_append_def)
  have s: "list_resize m (prelude_end p) n = Some (Inl NullDeref)" if "sz = stride b"
    using e that blk by (simp add: list_resize_def sizeof_elem_def)
  from e a s show ?thesis by blast
qed

text \<open>
  Witness for C1: a list of capacity 1 holding one element, with an allocator whose
  realloc returns \<open>NULL\<close>. The next append, resize or ensure-capacity of one more element
  dereferences the null pointer.
\<close>

theorem ensure_capacity_realloc_failure_witness:
  "(case create_list (empty_memory (exhausted_allocator 64) :: (nat, nat) memory) 4 1 NULL of
      Inl f \<Rightarrow> False
    | Inr (m, list) \<Rightarrow>
        (case list_append m list 10 4 of
           Some (Inr (m1, list1, r)) \<Rightarrow>
             list_len m1 list1 = Inr 1 \<and> list_cap m1 list1 = Inr 1 \<and>
             list_ensure_capacity m1 list1 1 4 = Some (Inl NullDeref) \<and>
             list_append m1 list1 20 4 = Some (Inl NullDeref) \<and>
             list_resize m1 list1 1 = Some (Inl NullDeref)
         | _ \<Rightarrow> False))"
proof -
  let ?al = "(exhausted_allocator 64)\<lparr>context := 101\<rparr>"
  let ?b = "\<lparr>capacity = 1, length_p = 1, allocator = 8, stride = 4, slots = [Some 10]\<rparr> :: nat block"
  let ?m0 = "\<lparr>blocks = [64 \<mapsto> \<lparr>capacity = 1, length_p = 0, allocator = 8, stride = 4,
                                  slots = [None]\<rparr>],
              allocators = [8 \<mapsto> ?al], calls = [Alloc 36]\<rparr> :: (nat, nat) memory"
  let ?m1 = "\<lparr>blocks = [64 \<mapsto> ?b], allocators = [8 \<mapsto> ?al], calls = [Alloc 36]\<rparr>
             :: (nat, nat) memory"
  have c: "create_list (empty_memory (exhausted_allocator 64)) 4 1 NULL = Inr (?m0, prelude_end 64)"
    by (simp add: run_defs)
  have a: "list_append ?m0 (prelude_end 64) 10 4 = Some (Inr (?m1, prelude_end 64, (prelude_end 64, 0)))"
    by (simp add: run_defs op_defs)
  have blk: "blocks ?m1 64 = Some ?b" by simp
  have lt: "capacity ?b < length_p ?b + 1" by simp
  have grow: "grow_capacity (capacity ?b * 2) (length_p ?b + 1) = Some 2"
    by (simp add: grow_capacity.simps)
  have al: "allocators ?m1 (allocator ?b) = Some ?al" by simp
  have null: "fst (realloc ?al 64 (sizeof_ListPrelude + 2 * 4) (context ?al)) = NULL"
    by (simp add: exhausted_allocator_def)
  from ensure_capacity_realloc_failure [OF blk lt grow al null, of 20]
  have "list_ensure_capacity ?m1 (prelude_end 64) 1 4 = Some (Inl NullDeref)"
    "list_append ?m1 (prelude_end 64) 20 4 = Some (Inl NullDeref)"
    "list_resize ?m1 (prelude_end 64) 1 = Some (Inl NullDeref)"
    by simp_all
  then show ?thesis
    unfolding c by (simp add: a list_len_def list_cap_def)
qed

subsection \<open>C2: the pointer that list\_resize returns\<close>

text \<open>
  C2 does not hold of the code; this is what the code does instead. Whenever
  \<^verbatim>\<open>list_resize(list, k)\<close> returns, the length has grown by \<open>k\<close> (in \<^verbatim>\<open>size_t\<close>) and the
  pointer it evaluates to is \<^verbatim>\<open>&list[length + k]\<close>, the slot behind the last new slot:
  the macro indexes with the value of \<^verbatim>\<open>length += desired\<close>. For \<open>k \<noteq> 0\<close> this is not the
  first new slot \<^verbatim>\<open>&list[length]\<close>.
\<close>

theorem list_resize_returns_end:
  assumes res: "list_resize m l k = Some (Inr (m', l', r))"
    and blk: "blocks m (list_prelude l) = Some b"
  shows "r = (l', length_p b + k) \<and> list_len m' l' = Inr (length_p b + k)
       \<and> (k \<noteq> 0 \<longrightarrow> r \<noteq> (l', length_p b))"
proof -
  from res obtain m1 where e: "list_ensure_capacity m l k (sizeof_elem m l) = Some (Inr (m1, l'))"
    by (auto simp: list_resize_def Let_def split: option.splits sum.splits prod.splits)
  from ensure_capacity_block [OF e blk] obtain b1 where b1:
    "blocks m1 (list_prelude l') = Some b1" "length_p b1 = length_p b" by blast
  from res e b1 have "r = (l', length_p b + k)" "list_len m' l' = Inr (length_p b + k)"
    by (auto simp: list_resize_def list_len_def Let_def)
  then show ?thesis by simp
qed

text \<open>
  Witness for C2: \<^verbatim>\<open>list_resize(list, 16)\<close> on \<^verbatim>\<open>list_new(int)\<close> (capacity 16, length 0)
  returns \<^verbatim>\<open>&list[16]\<close>, not \<^verbatim>\<open>&list[0]\<close>; a write through the returned pointer is past
  the end of the buffer.
\<close>

theorem list_resize_returns_end_witness:
  "(case list_new (empty_memory (bump_allocator 64) :: (nat, nat) memory) 4 of
      Inl f \<Rightarrow> False
    | Inr (m, list) \<Rightarrow>
        (case list_resize m list 16 of
           Some (Inr (m1, list1, r)) \<Rightarrow>
             list_len m list = Inr 0 \<and> list_len m1 list1 = Inr 16 \<and> list_cap m1 list1 = Inr 16 \<and>
             r = (list1, 16) \<and> r \<noteq> (list1, 0) \<and>
             list_set m1 (fst r) (snd r) 7 = Inl OutOfBounds
         | _ \<Rightarrow> False))"
proof -
  let ?al = "(bump_allocator 64)\<lparr>context := 161\<rparr>"
  let ?m = "\<lparr>blocks = [64 \<mapsto> \<lparr>capacity = 16, length_p = 0, allocator = 8, stride = 4,
                                 slots = replicate 16 None\<rparr>],
             allocators = [8 \<mapsto> ?al], calls = [Alloc 96]\<rparr> :: (nat, nat) memory"
  let ?m1 = "\<lparr>blocks = [64 \<mapsto> \<lparr>capacity = 16, length_p = 16, allocator = 8, stride = 4,
                                 slots = replicate 16 None\<rparr>],
             allocators = [8 \<mapsto> ?al], calls = [Alloc 96]\<rparr> :: (nat, nat) memory"
  have rs: "list_resize ?m 96 16 = Some (Inr (?m1, 96, (96, 16)))"
    by (simp add: list_resize_def list_ensure_capacity_def sizeof_elem_def list_prelude_def
        prelude_end_def sizeof_ListPrelude_def Let_def)
  have blk: "blocks ?m (list_prelude 96) = Some \<lparr>capacity = 16, length_p = 0, allocator = 8,
      stride = 4, slots = replicate 16 None\<rparr>"
    by (simp add: list_prelude_def sizeof_ListPrelude_def)
  from list_resize_returns_end [OF rs blk]
  have "list_len ?m1 96 = Inr 16" "((96, 16) :: elem_ref) \<noteq> (96, 0)" by simp_all
  moreover have "list_set ?m1 96 16 7 = Inl OutOfBounds" "list_len ?m 96 = Inr 0"
    "list_cap ?m1 96 = Inr 16"
    by (simp_all add: list_set_def list_len_def list_cap_def list_prelude_def sizeof_ListPrelude_def)
  ultimately show ?thesis
    by (simp add: list_new_int rs)
qed

subsection \<open>C3: the capacity after list\_ensure\_capacity\<close>

text \<open>
  C3, as amended. Let \<open>c\<close> be the capacity and \<open>d\<close> the additional count.
  If \<open>length + d \<le> c\<close>, the call returns the same handle and leaves the memory as it is: no
  reallocation, capacity unchanged. Otherwise, provided some \<open>c * 2 ^ k \<ge> length + d\<close> is
  below \<open>2 ^ 64\<close> (which needs \<open>c \<ge> 1\<close>), the byte size of a block of that capacity is below
  \<open>2 ^ 64\<close>, and the allocator's realloc does not fail, the call reallocates once and the
  resulting capacity is the least \<open>c * 2 ^ j \<ge> length + d\<close>.
\<close>

theorem ensure_capacity_doubling:
  assumes blk: "blocks m p = Some b"
  shows "(unat (length_p b) + unat d \<le> unat (capacity b) \<longrightarrow>
            list_ensure_capacity m (prelude_end p) d sz = Some (Inr (m, prelude_end p)))
       \<and> (unat (capacity b) < unat (length_p b) + unat d \<and>
          unat (length_p b) + unat d \<le> unat (capacity b) * 2 ^ k \<and>
          unat (capacity b) * 2 ^ k < 2 ^ 64 \<and>
          unat sizeof_ListPrelude + unat (capacity b) * 2 ^ k * unat sz < 2 ^ 64 \<and>
          allocators m (allocator b) = Some al \<and>
          (\<forall>n. fst (realloc al p n (context al)) \<noteq> NULL) \<longrightarrow>
          (\<exists>j m' q b'.
             list_ensure_capacity m (prelude_end p) d sz = Some (Inr (m', prelude_end q)) \<and>
             q = fst (realloc al p (sizeof_ListPrelude + capacity b * 2 ^ j * sz) (context al)) \<and>
             blocks m' q = Some b' \<and>
             capacity b' = capacity b * 2 ^ j \<and>
             unat (capacity b') = unat (capacity b) * 2 ^ j \<and>
             unat (length_p b) + unat d \<le> unat (capacity b) * 2 ^ j \<and>
             (\<forall>l<j. unat (capacity b) * 2 ^ l < unat (length_p b) + unat d) \<and>
             calls m' = calls m @ [Realloc p (sizeof_ListPrelude + capacity b' * sz)]))"
proof (intro conjI impI)
  assume le: "unat (length_p b) + unat d \<le> unat (capacity b)"
  have "unat (capacity b) < 2 ^ LENGTH(64)" by (rule unsigned_less)
  with le have "unat (length_p b) + unat d < 2 ^ LENGTH(64)" by linarith
  then have "unat (length_p b + d) = unat (length_p b) + unat d" by (simp only: unat_add_lem)
  with le have "\<not> capacity b < length_p b + d" by (simp add: word_less_nat_alt)
  with blk show "list_ensure_capacity m (prelude_end p) d sz = Some (Inr (m, prelude_end p))"
    by (rule ensure_capacity_no_growth)
next
  assume a: "unat (capacity b) < unat (length_p b) + unat d \<and>
          unat (length_p b) + unat d \<le> unat (capacity b) * 2 ^ k \<and>
          unat (capacity b) * 2 ^ k < 2 ^ 64 \<and>
          unat sizeof_ListPrelude + unat (capacity b) * 2 ^ k * unat sz < 2 ^ 64 \<and>
          allocators m (allocator b) = Some al \<and>
          (\<forall>n. fst (realloc al p n (context al)) \<noteq> NULL)"
  from ensure_capacity_growth_least [OF blk, of d k] a obtain j where j: "j \<le> k"
    "grow_capacity (capacity b * 2) (length_p b + d) = Some (capacity b * 2 ^ j)"
    "capacity b < length_p b + d"
    "unat (capacity b * 2 ^ j) = unat (capacity b) * 2 ^ j"
    "unat (length_p b) + unat d \<le> unat (capacity b) * 2 ^ j"
    "\<forall>l<j. unat (capacity b) * 2 ^ l < unat (length_p b) + unat d" by blast
  let ?nc = "capacity b * 2 ^ j"
  let ?size = "sizeof_ListPrelude + ?nc * sz"
  obtain q c' where r: "realloc al p ?size (context al) = (q, c')"
    by (cases "realloc al p ?size (context al)")
  have q: "q \<noteq> NULL" using a r by (metis fst_conv)
  have "unat (capacity b) * 2 ^ j \<le> unat (capacity b) * 2 ^ k" using j(1) by simp
  then have le1: "unat (capacity b) * 2 ^ j * unat sz \<le> unat (capacity b) * 2 ^ k * unat sz"
    by (rule mult_le_mono1)
  from a have "unat sizeof_ListPrelude + unat (capacity b) * 2 ^ k * unat sz < 2 ^ 64" by blast
  with le1 have "unat sizeof_ListPrelude + unat (capacity b) * 2 ^ j * unat sz < 2 ^ 64"
    by linarith
  then have "unat sizeof_ListPrelude + unat ?nc * unat sz < 2 ^ 64" by (simp only: j(4))
  then have fits: "\<not> ?size < sizeof_ListPrelude" by (rule new_size_fits(2))
  from a have al: "allocators m (allocator b) = Some al" by simp
  note g = ensure_capacity_growth [OF blk j(3) j(2) al r]
  show "\<exists>j m' q b'.
             list_ensure_capacity m (prelude_end p) d sz = Some (Inr (m', prelude_end q)) \<and>
             q = fst (realloc al p (sizeof_ListPrelude + capacity b * 2 ^ j * sz) (context al)) \<and>
             blocks m' q = Some b' \<and>
             capacity b' = capacity b * 2 ^ j \<and>
             unat (capacity b') = unat (capacity b) * 2 ^ j \<and>
             unat (length_p b) + unat d \<le> unat (capacity b) * 2 ^ j \<and>
             (\<forall>l<j. unat (capacity b) * 2 ^ l < unat (length_p b) + unat d) \<and>
             calls m' = calls m @ [Realloc p (sizeof_ListPrelude + capacity b' * sz)]"
    apply (rule exI [of _ j])
    apply (subst g)
    using q fits r j(4,5,6) apply simp
    done
qed

text \<open>
  Witness for C3 on \<^verbatim>\<open>list_new(int)\<close> (capacity 16, length 0): a demand of 10 more
  elements returns the same handle and memory; a demand of 100 reallocates once, to
  capacity \<open>128 = 16 * 2 ^ 3\<close> and \<open>32 + 128 * 4 = 544\<close> bytes.
\<close>

theorem ensure_capacity_doubling_witness:
  "(case list_new (empty_memory (bump_allocator 64) :: (nat, nat) memory) 4 of
      Inl f \<Rightarrow> False
    | Inr (m, list) \<Rightarrow>
        list_ensure_capacity m list 10 4 = Some (Inr (m, list)) \<and>
        (\<exists>m' list' b'. list_ensure_capacity m list 100 4 = Some (Inr (m', list')) \<and>
           blocks m' (list_prelude list') = Some b' \<and> capacity b' = 128 \<and>
           calls m' = calls m @ [Realloc 64 544]))"
proof -
  let ?b = "\<lparr>capacity = 16, length_p = 0, allocator = 8, stride = 4,
             slots = replicate 16 None\<rparr> :: nat block"
  let ?al = "(bump_allocator 64)\<lparr>context := 161\<rparr>"
  let ?m = "\<lparr>blocks = [64 \<mapsto> ?b], allocators = [8 \<mapsto> ?al], calls = [Alloc 96]\<rparr>"
  have blk: "blocks ?m 64 = Some ?b" by simp
  note t = ensure_capacity_doubling [OF blk, where al = ?al and sz = 4]
  have same: "list_ensure_capacity ?m (prelude_end 64) 10 4 = Some (Inr (?m, prelude_end 64))"
    using t [of 10 0] by simp
  have "\<exists>j m' q b'.
      list_ensure_capacity ?m (prelude_end 64) 100 4 = Some (Inr (m', prelude_end q)) \<and>
      q = fst (realloc ?al 64 (sizeof_ListPrelude + capacity ?b * 2 ^ j * 4) (context ?al)) \<and>
      blocks m' q = Some b' \<and>
      capacity b' = capacity ?b * 2 ^ j \<and>
      unat (capacity b') = unat (capacity ?b) * 2 ^ j \<and>
      unat (length_p ?b) + unat (100 :: size_t) \<le> unat (capacity ?b) * 2 ^ j \<and>
      (\<forall>l<j. unat (capacity ?b) * 2 ^ l < unat (length_p ?b) + unat (100 :: size_t)) \<and>
      calls m' = calls ?m @ [Realloc 64 (sizeof_ListPrelude + capacity b' * 4)]"
    using t [of 100 3] by (simp add: bump_allocator_def sizeof_ListPrelude_def)
  then obtain j m' q b' where r:
      "list_ensure_capacity ?m (prelude_end 64) 100 4 = Some (Inr (m', prelude_end q))"
      "blocks m' q = Some b'" "unat (capacity b') = 16 * 2 ^ j" "capacity b' = 16 * 2 ^ j"
      "100 \<le> (16::nat) * 2 ^ j"
      "\<forall>l<j. (16::nat) * 2 ^ l < 100"
      "calls m' = calls ?m @ [Realloc 64 (sizeof_ListPrelude + capacity b' * 4)]"
    by auto
  have "j = 3"
  proof -
    have "\<not> j < 3"
    proof
      assume "j < 3"
      then have "j = 0 \<or> j = 1 \<or> j = 2" by arith
      with r(5) show False by auto
    qed
    moreover have "\<not> 3 < j"
    proof
      assume "3 < j"
      with r(6) have "(16::nat) * 2 ^ 3 < 100" by blast
      then show False by simp
    qed
    ultimately show ?thesis by arith
  qed
  with r have "list_ensure_capacity ?m (prelude_end 64) 100 4 = Some (Inr (m', prelude_end q))
     \<and> blocks m' (list_prelude (prelude_end q)) = Some b' \<and> capacity b' = 128
     \<and> calls m' = calls ?m @ [Realloc 64 544]"
    by (simp add: sizeof_ListPrelude_def)
  then have "\<exists>m' list' b'. list_ensure_capacity ?m (prelude_end 64) 100 4 = Some (Inr (m', list')) \<and>
           blocks m' (list_prelude list') = Some b' \<and> capacity b' = 128 \<and>
           calls m' = calls ?m @ [Realloc 64 544]" by blast
  with same show ?thesis
    by (simp add: list_new_int) (simp add: prelude_end_def sizeof_ListPrelude_def)
qed

text \<open>
  Counterexample to C3 as stated: a list of capacity 2 holding 2 elements, asked for
  \<open>2 ^ 64 - 3\<close> more. The demand is \<^verbatim>\<open>SIZE_MAX\<close>; the candidates 4, 8, ... wrap around to
  0 and never reach it, so the call does not return and there is no resulting capacity.
\<close>

theorem ensure_capacity_doubling_counterexample:
  "(case create_list (empty_memory (bump_allocator 64) :: (nat, nat) memory) 4 2 NULL of
      Inl f \<Rightarrow> False
    | Inr (m, list) \<Rightarrow>
        (case list_append_all m list [10, 20] 4 of
           Some (Inr (m1, list1)) \<Rightarrow>
             list_len m1 list1 = Inr 2 \<and> list_cap m1 list1 = Inr 2 \<and>
             list_ensure_capacity m1 list1 (- 3) 4 = None
         | _ \<Rightarrow> False))"
  by (simp add: run_defs list_append_def list_set_def list_len_def list_cap_def
      list_ensure_capacity_def grow_capacity_even_max)

subsection \<open>C4: appends and the size passed to list\_ensure\_capacity\<close>

text \<open>
  C4 does not hold of the code; this is the code at a failing input. A list of 8-byte
  elements from \<^verbatim>\<open>list_new\<close> receives sixteen appends of 4-byte expressions (as in
  \<^verbatim>\<open>long* l = list_new(long); list_append(l, 1);\<close>, where \<^verbatim>\<open>sizeof(1)\<close> is 4). They fit
  the initial capacity. The seventeenth append grows the list with \<^verbatim>\<open>sizeof(item)\<close>:
  capacity becomes 32, but realloc is asked for \<open>32 + 32 * 4 = 160\<close> bytes, the size the
  block already had, so the block still has 16 slots of 8 bytes and the store to slot 16
  is out of bounds. With the element size 8 in place of \<^verbatim>\<open>sizeof(item)\<close> the same append
  succeeds and slot 16 reads back 17.
\<close>

theorem list_append_item_size:
  "(case list_new (empty_memory (bump_allocator 64) :: (nat, nat) memory) 8 of
      Inl f \<Rightarrow> False
    | Inr (m, list) \<Rightarrow>
        (case list_append_all m list [1, 2, 3, 4, 5, 6, 7, 8, 9, 10, 11, 12, 13, 14, 15, 16] 4 of
           Some (Inr (m1, list1)) \<Rightarrow>
             list_len m1 list1 = Inr 16 \<and> list_cap m1 list1 = Inr 16 \<and>
             calls m1 = [Alloc 160] \<and>
             list_ensure_capacity m1 list1 1 4 =
               Some (Inr (m1\<lparr>blocks := [225 \<mapsto> \<lparr>capacity = 32, length_p = 16, allocator = 8,
                            stride = 8,
                            slots = map Some [1, 2, 3, 4, 5, 6, 7, 8, 9, 10, 11, 12, 13, 14, 15, 16]\<rparr>],
                          allocators := [8 \<mapsto> (bump_allocator 64)\<lparr>context := 386\<rparr>],
                          calls := [Alloc 160, Realloc 64 160]\<rparr>, prelude_end 225)) \<and>
             list_append m1 list1 17 4 = Some (Inl OutOfBounds) \<and>
             (\<exists>m2 list2 r. list_append m1 list1 17 8 = Some (Inr (m2, list2, r)) \<and>
                list_get m2 list2 16 = Inr (Some 17))
         | _ \<Rightarrow> False))"
  by (simp add: run_defs op_defs)

subsection \<open>C5: list\_remove\_at is a swap-remove\<close>

text \<open>
  C5. For a list with \<open>length \<ge> 1\<close> whose live elements lie inside its block, and an
  index below the length: if the index is the last live one, \<^verbatim>\<open>list_remove_at\<close> only
  decrements the length and no slot changes; if it is not the last, more than one element
  is live, slot \<open>index\<close> receives a copy of the former last live slot and the length is
  decremented; if the list has exactly one element, the index is 0 and the length becomes
  0 with no slot changed. Nothing else in the memory changes.
\<close>

theorem remove_at_swap_remove:
  assumes blk: "blocks m p = Some b" and ne: "length_p b \<noteq> 0"
    and idx: "index < length_p b" and wf: "unat (length_p b) \<le> length (slots b)"
  shows "(index = length_p b - 1 \<longrightarrow>
            list_remove_at m (prelude_end p) index =
              Inr (m\<lparr>blocks := (blocks m)(p \<mapsto> b\<lparr>length_p := length_p b - 1\<rparr>)\<rparr>))
       \<and> (index \<noteq> length_p b - 1 \<longrightarrow>
            1 < length_p b \<and>
            list_remove_at m (prelude_end p) index =
              Inr (m\<lparr>blocks := (blocks m)(p \<mapsto>
                     b\<lparr>length_p := length_p b - 1,
                       slots := (slots b)[unat index := slots b ! unat (length_p b - 1)]\<rparr>)\<rparr>))
       \<and> (length_p b = 1 \<longrightarrow>
            index = 0 \<and>
            list_remove_at m (prelude_end p) index =
              Inr (m\<lparr>blocks := (blocks m)(p \<mapsto> b\<lparr>length_p := 0\<rparr>)\<rparr>))"
proof (intro conjI impI)
  assume "index = length_p b - 1"
  with blk show "list_remove_at m (prelude_end p) index =
      Inr (m\<lparr>blocks := (blocks m)(p \<mapsto> b\<lparr>length_p := length_p b - 1\<rparr>)\<rparr>)"
    by (simp add: list_remove_at_def)
next
  assume nl: "index \<noteq> length_p b - 1"
  have ui: "unat index < unat (length_p b)" using idx by (simp add: word_less_nat_alt)
  have ul: "unat (length_p b - 1) = unat (length_p b) - 1" using ne by (rule unat_minus_one)
  have "unat index \<noteq> unat (length_p b - 1)" using nl by (simp add: word_unat_eq_iff)
  with ui ul have "1 < unat (length_p b)" by linarith
  then show one: "1 < length_p b" by (simp add: word_less_nat_alt)
  from ui wf have i1: "unat index < length (slots b)" by linarith
  from ul ui wf have i2: "unat (length_p b - 1) < length (slots b)" by linarith
  from blk nl one i1 i2 show "list_remove_at m (prelude_end p) index =
      Inr (m\<lparr>blocks := (blocks m)(p \<mapsto>
             b\<lparr>length_p := length_p b - 1,
               slots := (slots b)[unat index := slots b ! unat (length_p b - 1)]\<rparr>)\<rparr>)"
    by (simp add: list_remove_at_def Let_def)
next
  assume l1: "length_p b = 1"
  with idx show i0: "index = 0" by simp
  with blk l1 show "list_remove_at m (prelude_end p) index =
      Inr (m\<lparr>blocks := (blocks m)(p \<mapsto> b\<lparr>length_p := 0\<rparr>)\<rparr>)"
    by (simp add: list_remove_at_def)
qed

text \<open>
  Witness for C5 on the list 10, 20, 30: removing index 2 (the last) leaves the slots as
  they are, removing index 0 puts 30 into slot 0; both leave length 2. Removing index 0
  from the one-element list 10 leaves length 0.
\<close>

theorem remove_at_swap_remove_witness:
  "list_remove_at
     (\<lparr>blocks = [64 \<mapsto> \<lparr>capacity = 4, length_p = 3, allocator = 8, stride = 4,
                           slots = [Some 10, Some 20, Some 30, None]\<rparr>],
       allocators = [8 \<mapsto> bump_allocator 200], calls = []\<rparr> :: (nat, nat) memory)
     (prelude_end 64) 2 =
   Inr \<lparr>blocks = [64 \<mapsto> \<lparr>capacity = 4, length_p = 2, allocator = 8, stride = 4,
                          slots = [Some 10, Some 20, Some 30, None]\<rparr>],
        allocators = [8 \<mapsto> bump_allocator 200], calls = []\<rparr>
   \<and>
   list_remove_at
     (\<lparr>blocks = [64 \<mapsto> \<lparr>capacity = 4, length_p = 3, allocator = 8, stride = 4,
                           slots = [Some 10, Some 20, Some 30, None]\<rparr>],
       allocators = [8 \<mapsto> bump_allocator 200], calls = []\<rparr> :: (nat, nat) memory)
     (prelude_end 64) 0 =
   Inr \<lparr>blocks = [64 \<mapsto> \<lparr>capacity = 4, length_p = 2, allocator = 8, stride = 4,
                          slots = [Some 30, Some 20, Some 30, None]\<rparr>],
        allocators = [8 \<mapsto> bump_allocator 200], calls = []\<rparr>
   \<and>
   list_remove_at
     (\<lparr>blocks = [64 \<mapsto> \<lparr>capacity = 4, length_p = 1, allocator = 8, stride = 4,
                           slots = [Some 10, None, None, None]\<rparr>],
       allocators = [8 \<mapsto> bump_allocator 200], calls = []\<rparr> :: (nat, nat) memory)
     (prelude_end 64) 0 =
   Inr \<lparr>blocks = [64 \<mapsto> \<lparr>capacity = 4, length_p = 0, allocator = 8, stride = 4,
                          slots = [Some 10, None, None, None]\<rparr>],
        allocators = [8 \<mapsto> bump_allocator 200], calls = []\<rparr>"
proof -
  let ?b = "\<lparr>capacity = 4, length_p = 3, allocator = 8, stride = 4,
             slots = [Some 10, Some 20, Some 30, None]\<rparr> :: nat block"
  let ?m = "\<lparr>blocks = [64 \<mapsto> ?b], allocators = [8 \<mapsto> bump_allocator 200], calls = []\<rparr>
            :: (nat, nat) memory"
  let ?b1 = "\<lparr>capacity = 4, length_p = 1, allocator = 8, stride = 4,
             slots = [Some 10, None, None, None]\<rparr> :: nat block"
  let ?m1 = "\<lparr>blocks = [64 \<mapsto> ?b1], allocators = [8 \<mapsto> bump_allocator 200], calls = []\<rparr>
            :: (nat, nat) memory"
  have blk: "blocks ?m 64 = Some ?b" and blk1: "blocks ?m1 64 = Some ?b1" by simp_all
  have ne: "length_p ?b \<noteq> 0" and ne1: "length_p ?b1 \<noteq> 0" by simp_all
  have wf: "unat (length_p ?b) \<le> length (slots ?b)"
    and wf1: "unat (length_p ?b1) \<le> length (slots ?b1)" by simp_all
  have i2: "(2 :: size_t) < length_p ?b" and i0: "(0 :: size_t) < length_p ?b"
    and i01: "(0 :: size_t) < length_p ?b1" by simp_all
  from remove_at_swap_remove [OF blk ne i2 wf] remove_at_swap_remove [OF blk ne i0 wf]
    remove_at_swap_remove [OF blk1 ne1 i01 wf1]
  show ?thesis by simp
qed

subsection \<open>C6: pop-back\<close>

text \<open>
  C6 cannot be run on the code as written: \<^verbatim>\<open>list_pop_back(a)\<close> expands to
  \<^verbatim>\<open>(array_header(a)->length -= 1)\<close>, and the header defines no \<^verbatim>\<open>array_header\<close>; the
  macro that finds the prelude is \<^verbatim>\<open>list_prelude\<close>, which every other macro uses. A use
  of \<^verbatim>\<open>list_pop_back\<close> does not compile. \<open>list_pop_back_list_prelude\<close> above shows what
  the macro does once the lookup is \<^verbatim>\<open>list_prelude\<close>: it decrements the length by exactly
  1 and changes nothing else.
\<close>

subsection \<open>C7: termination of the doubling loop\<close>

text \<open>
  C7, as amended. For every list whose capacity is at least 1 and every additional count
  such that \<open>length + count\<close>, computed in \<^verbatim>\<open>size_t\<close>, is at most \<open>2 ^ 63\<close>, the call of
  \<^verbatim>\<open>list_ensure_capacity\<close> returns (with a handle or a fault): its doubling loop
  terminates.
\<close>

theorem ensure_capacity_terminates:
  assumes "blocks m p = Some b" and "capacity b \<noteq> 0" and "length_p b + n \<le> 2 ^ 63"
  shows "\<exists>r. list_ensure_capacity m (prelude_end p) n sz = Some r"
proof (cases "capacity b < length_p b + n")
  case False
  with assms(1) show ?thesis by (simp add: list_ensure_capacity_def)
next
  case True
  let ?c = "capacity b" and ?d = "length_p b + n"
  have c1: "1 \<le> unat ?c" using assms(2) by (simp add: unat_gt_0 Suc_le_eq)
  have cd: "unat ?c < unat ?d" using True by (simp add: word_less_nat_alt)
  have d63: "unat ?d \<le> 2 ^ 63" using assms(3) by (simp add: word_le_nat_alt)
  from doubling_reaches [OF c1 cd d63] obtain k
    where k: "unat ?d \<le> unat ?c * 2 ^ Suc k" "unat ?c * 2 ^ Suc k < 2 ^ 64" by blast
  have "unat ?c * 2 \<le> unat ?c * 2 ^ Suc k" by simp
  with k(2) have "unat ?c * 2 < 2 ^ 64" by linarith
  then have u2: "unat (?c * 2) = unat ?c * 2" by (rule unat_double)
  have "unat ?d \<le> unat (?c * 2) * 2 ^ k" "unat (?c * 2) * 2 ^ k < 2 ^ 64"
    using k by (simp_all add: u2 mult.assoc)
  from grow_capacity_least [OF this] obtain nc
    where "grow_capacity (?c * 2) ?d = Some nc" by blast
  with assms(1) True show ?thesis
    by (simp add: list_ensure_capacity_def Let_def split: sum.splits prod.splits)
qed

text \<open>
  Witness for C7: \<^verbatim>\<open>list_new(int)\<close> has capacity 16 and length 0; a demand of 100 more
  elements returns.
\<close>

theorem ensure_capacity_terminates_witness:
  "(case list_new (empty_memory (bump_allocator 64) :: (nat, nat) memory) 4 of
      Inl f \<Rightarrow> False
    | Inr (m, list) \<Rightarrow>
        list_cap m list = Inr 16 \<and> list_len m list = Inr 0 \<and>
        (\<exists>r. list_ensure_capacity m list 100 4 = Some r))"
proof -
  let ?b = "\<lparr>capacity = 16, length_p = 0, allocator = 8, stride = 4,
             slots = replicate 16 None\<rparr> :: nat block"
  let ?m = "\<lparr>blocks = [64 \<mapsto> ?b], allocators = [8 \<mapsto> (bump_allocator 64)\<lparr>context := 161\<rparr>],
             calls = [Alloc 96]\<rparr>"
  have "\<exists>r. list_ensure_capacity ?m (prelude_end 64) 100 4 = Some r"
    by (rule ensure_capacity_terminates [where b = ?b]) simp_all
  then show ?thesis
    by (simp add: list_new_int list_cap_def list_len_def)
      (simp add: prelude_end_def list_prelude_def sizeof_ListPrelude_def)
qed

text \<open>
  Counterexample to C7 as stated: \<^verbatim>\<open>list_new(int)\<close> has capacity 16, which is at least
  1, and \<^verbatim>\<open>list_ensure_capacity(list, SIZE_MAX, 4)\<close> does not return. The candidates
  32, 64, ..., \<open>2 ^ 63\<close> are below the demand, the next doubling wraps around to 0, and 0
  stays 0.
\<close>

theorem ensure_capacity_terminates_counterexample:
  "(case list_new (empty_memory (bump_allocator 64) :: (nat, nat) memory) 4 of
      Inl f \<Rightarrow> False
    | Inr (m, list) \<Rightarrow>
        list_cap m list = Inr 16 \<and> list_ensure_capacity m list (- 1) 4 = None)"
  by (simp add: run_defs list_cap_def list_ensure_capacity_def grow_capacity_even_max)

subsection \<open>C8: list\_clear keeps the allocation\<close>

text \<open>
  C8. For a list whose block has room for its capacity, \<^verbatim>\<open>list_clear\<close> sets the length
  to 0 and changes nothing else: capacity, buffer, allocator reference, the allocators
  and the log of allocator calls stay as they are (nothing is freed). After it, appending
  any run of items that is no longer than the capacity returns the same handle, makes no
  allocator call, leaves capacity and allocator reference unchanged, and stores the items
  in order from slot 0.
\<close>

theorem clear_keeps_allocation:
  assumes blk: "blocks m p = Some b" and wf: "unat (capacity b) \<le> length (slots b)"
    and n: "length items \<le> unat (capacity b)"
  shows "\<exists>m' b'.
      list_clear m (prelude_end p) = Inr (m\<lparr>blocks := (blocks m)(p \<mapsto> b\<lparr>length_p := 0\<rparr>)\<rparr>)
    \<and> list_append_all (m\<lparr>blocks := (blocks m)(p \<mapsto> b\<lparr>length_p := 0\<rparr>)\<rparr>) (prelude_end p) items sz
        = Some (Inr (m', prelude_end p))
    \<and> calls m' = calls m \<and> allocators m' = allocators m
    \<and> blocks m' = (blocks m)(p \<mapsto> b')
    \<and> capacity b' = capacity b \<and> allocator b' = allocator b
    \<and> unat (length_p b') = length items
    \<and> (\<forall>i<length items. slots b' ! i = Some (items ! i))"
proof -
  let ?b0 = "b\<lparr>length_p := 0\<rparr>"
  let ?m0 = "m\<lparr>blocks := (blocks m)(p \<mapsto> ?b0)\<rparr>"
  have clear: "list_clear m (prelude_end p) = Inr ?m0"
    using blk by (simp add: list_clear_def)
  have b0: "blocks ?m0 p = Some ?b0" by simp
  have c0: "unat (length_p ?b0) + length items \<le> unat (capacity ?b0)" using n by simp
  have s0: "unat (capacity ?b0) \<le> length (slots ?b0)" using wf by simp
  from append_all_within_capacity [OF b0 c0 s0, of sz] obtain b' where b':
    "list_append_all ?m0 (prelude_end p) items sz =
       Some (Inr (?m0\<lparr>blocks := (blocks ?m0)(p \<mapsto> b')\<rparr>, prelude_end p))"
    "capacity b' = capacity ?b0" "allocator b' = allocator ?b0"
    "unat (length_p b') = unat (length_p ?b0) + length items"
    "\<forall>i<length items. slots b' ! (unat (length_p ?b0) + i) = Some (items ! i)"
    by blast
  let ?m' = "?m0\<lparr>blocks := (blocks ?m0)(p \<mapsto> b')\<rparr>"
  have fr: "calls ?m' = calls m" "allocators ?m' = allocators m"
    "blocks ?m' = (blocks m)(p \<mapsto> b')" by simp_all
  have keep: "capacity b' = capacity b" "allocator b' = allocator b"
    "unat (length_p b') = length items"
    "\<forall>i<length items. slots b' ! i = Some (items ! i)"
    using b'(2-5) by simp_all
  from clear b'(1) fr keep show ?thesis by blast
qed

text \<open>
  Witness for C8: a list of capacity 4 holding three elements, whose allocator cannot
  reallocate. After the clear, four appends succeed in the same block and the log of
  allocator calls is unchanged.
\<close>

theorem clear_keeps_allocation_witness:
  "list_clear
     (\<lparr>blocks = [64 \<mapsto> \<lparr>capacity = 4, length_p = 3, allocator = 8, stride = 4,
                           slots = [Some 10, Some 20, Some 30, None]\<rparr>],
       allocators = [8 \<mapsto> exhausted_allocator 200], calls = [Alloc 48]\<rparr> :: (nat, nat) memory)
     (prelude_end 64) =
   Inr \<lparr>blocks = [64 \<mapsto> \<lparr>capacity = 4, length_p = 0, allocator = 8, stride = 4,
                          slots = [Some 10, Some 20, Some 30, None]\<rparr>],
        allocators = [8 \<mapsto> exhausted_allocator 200], calls = [Alloc 48]\<rparr>
   \<and>
   (\<exists>m' b'.
      list_append_all
        (\<lparr>blocks = [64 \<mapsto> \<lparr>capacity = 4, length_p = 0, allocator = 8, stride = 4,
                              slots = [Some 10, Some 20, Some 30, None]\<rparr>],
          allocators = [8 \<mapsto> exhausted_allocator 200], calls = [Alloc 48]\<rparr> :: (nat, nat) memory)
        (prelude_end 64) [1, 2, 3, 4] 4 = Some (Inr (m', prelude_end 64))
    \<and> calls m' = [Alloc 48] \<and> blocks m' 64 = Some b' \<and> capacity b' = 4 \<and> allocator b' = 8
    \<and> unat (length_p b') = 4
    \<and> slots b' ! 0 = Some 1 \<and> slots b' ! 3 = Some 4)"
proof -
  let ?b = "\<lparr>capacity = 4, length_p = 3, allocator = 8, stride = 4,
             slots = [Some 10, Some 20, Some 30, None]\<rparr> :: nat block"
  let ?m = "\<lparr>blocks = [64 \<mapsto> ?b], allocators = [8 \<mapsto> exhausted_allocator 200],
             calls = [Alloc 48]\<rparr> :: (nat, nat) memory"
  have blk: "blocks ?m 64 = Some ?b" by simp
  have wf: "unat (capacity ?b) \<le> length (slots ?b)" by simp
  have n: "length [1, 2, 3, 4 :: nat] \<le> unat (capacity ?b)" by simp
  from clear_keeps_allocation [OF blk wf n, of 4] obtain m' b' where r:
    "list_clear ?m (prelude_end 64) = Inr (?m\<lparr>blocks := (blocks ?m)(64 \<mapsto> ?b\<lparr>length_p := 0\<rparr>)\<rparr>)"
    "list_append_all (?m\<lparr>blocks := (blocks ?m)(64 \<mapsto> ?b\<lparr>length_p := 0\<rparr>)\<rparr>) (prelude_end 64)
       [1, 2, 3, 4] 4 = Some (Inr (m', prelude_end 64))"
    "calls m' = calls ?m" "blocks m' = (blocks ?m)(64 \<mapsto> b')"
    "capacity b' = capacity ?b" "allocator b' = allocator ?b"
    "unat (length_p b') = length [1, 2, 3, 4 :: nat]"
    "\<forall>i<length [1, 2, 3, 4 :: nat]. slots b' ! i = Some ([1, 2, 3, 4] ! i)"
    by blast
  from r(8) have "slots b' ! 0 = Some 1" "slots b' ! 3 = Some 4" by simp_all
  with r(1-7) show ?thesis by simp
qed

subsection \<open>C9: the invariant length \<open>\<le>\<close> capacity\<close>

text \<open>
  C9. The invariant \<open>0 \<le> length \<le> capacity\<close> holds for the list that \<^verbatim>\<open>create_list\<close>
  returns, and every operation that is called under its precondition on a list with the
  invariant and returns, returns a list with the invariant: append, resize, clear,
  remove-at with an index in range (so the list is not empty) and pop-back on a list
  with \<open>length > 0\<close>.
\<close>

theorem length_le_capacity_invariant:
  "(create_list m0 st cap al = Inr (m, l) \<and> l \<noteq> NULL \<longrightarrow> list_inv m l) \<and>
   (list_inv m1 l1 \<and> list_len m1 l1 = Inr len \<and> op_pre len op \<and>
    run_op m1 l1 op = Some (Inr (m2, l2)) \<longrightarrow> list_inv m2 l2)"
proof (intro conjI impI)
  assume "create_list m0 st cap al = Inr (m, l) \<and> l \<noteq> NULL"
  then show "list_inv m l" using create_list_inv by blast
next
  assume a: "list_inv m1 l1 \<and> list_len m1 l1 = Inr len \<and> op_pre len op \<and>
    run_op m1 l1 op = Some (Inr (m2, l2))"
  show "list_inv m2 l2"
  proof (cases op)
    case (Append v sz)
    with a obtain r where "list_append m1 l1 v sz = Some (Inr (m2, l2, r))"
      by (auto split: option.splits sum.splits prod.splits)
    then show ?thesis by (rule list_append_inv)
  next
    case (Resize k)
    with a obtain r where "list_resize m1 l1 k = Some (Inr (m2, l2, r))"
      by (auto split: option.splits sum.splits prod.splits)
    then show ?thesis by (rule list_resize_inv)
  next
    case Clear
    with a have "list_clear m1 l1 = Inr m2" "l2 = l1" by (auto split: sum.splits)
    then show ?thesis using list_clear_inv by blast
  next
    case (RemoveAt i)
    with a have "list_remove_at m1 l1 i = Inr m2" "l2 = l1" "i < len"
      by (auto split: sum.splits)
    with a show ?thesis using list_remove_at_inv by blast
  next
    case PopBack
    with a have "list_pop_back list_prelude m1 l1 = Inr m2" "l2 = l1" "0 < len"
      by (auto split: sum.splits)
    with a show ?thesis using list_pop_back_inv by blast
  qed
qed

text \<open>
  Witness for C9: \<^verbatim>\<open>create_list(4, 2, NULL)\<close>, then an append of 10, then
  \<^verbatim>\<open>list_remove_at(list, 0)\<close>; each step returns and the invariant holds after it.
\<close>

theorem length_le_capacity_invariant_witness:
  "(case create_list (empty_memory (bump_allocator 64) :: (nat, nat) memory) 4 2 NULL of
      Inl f \<Rightarrow> False
    | Inr (m, l) \<Rightarrow>
        list_inv m l \<and>
        (case run_op m l (Append 10 4) of
           Some (Inr (m1, l1)) \<Rightarrow>
             list_inv m1 l1 \<and> list_len m1 l1 = Inr 1 \<and>
             (case run_op m1 l1 (RemoveAt 0) of
                Some (Inr (m2, l2)) \<Rightarrow> list_inv m2 l2 \<and> list_len m2 l2 = Inr 0
              | _ \<Rightarrow> False)
         | _ \<Rightarrow> False))"
proof -
  let ?al = "(bump_allocator 64)\<lparr>context := 105\<rparr>"
  let ?m0 = "\<lparr>blocks = [64 \<mapsto> \<lparr>capacity = 2, length_p = 0, allocator = 8, stride = 4,
                                  slots = [None, None]\<rparr>],
              allocators = [8 \<mapsto> ?al], calls = [Alloc 40]\<rparr> :: (nat, nat) memory"
  let ?m1 = "\<lparr>blocks = [64 \<mapsto> \<lparr>capacity = 2, length_p = 1, allocator = 8, stride = 4,
                                  slots = [Some 10, None]\<rparr>],
              allocators = [8 \<mapsto> ?al], calls = [Alloc 40]\<rparr> :: (nat, nat) memory"
  let ?m2 = "\<lparr>blocks = [64 \<mapsto> \<lparr>capacity = 2, length_p = 0, allocator = 8, stride = 4,
                                  slots = [Some 10, None]\<rparr>],
              allocators = [8 \<mapsto> ?al], calls = [Alloc 40]\<rparr> :: (nat, nat) memory"
  have c: "create_list (empty_memory (bump_allocator 64)) 4 2 NULL = Inr (?m0, 96)"
    by (simp add: run_defs replicate_numeral)
  have a: "run_op ?m0 96 (Append 10 4) = Some (Inr (?m1, 96))"
    by (simp add: run_defs op_defs)
  have r: "run_op ?m1 96 (RemoveAt 0) = Some (Inr (?m2, 96))"
    by (simp add: run_defs op_defs)
  have len0: "list_len ?m0 96 = Inr 0" and len1: "list_len ?m1 96 = Inr 1"
    and len2: "list_len ?m2 96 = Inr 0"
    by (simp_all add: run_defs op_defs)
  have nn: "(96 :: addr) \<noteq> NULL" by simp
  note inv = length_le_capacity_invariant
  have i0: "list_inv ?m0 96"
    by (rule inv [THEN conjunct1, THEN mp, OF conjI [OF c nn]])
  have p0: "op_pre 0 (Append (10 :: nat) 4)" by simp
  have i1: "list_inv ?m1 96"
    by (rule inv [THEN conjunct2, THEN mp, OF conjI [OF i0 conjI [OF len0 conjI [OF p0 a]]]])
  have p1: "op_pre 1 (RemoveAt 0 :: nat list_op)" by simp
  have i2: "list_inv ?m2 96"
    by (rule inv [THEN conjunct2, THEN mp, OF conjI [OF i1 conjI [OF len1 conjI [OF p1 r]]]])
  show ?thesis
    unfolding c by (simp add: a r i0 i1 i2 len1 len2 del: run_op.simps)
qed

subsection \<open>C10: list\_ensure\_capacity keeps the length and the live elements\<close>

text \<open>
  C10, as amended. Whenever \<^verbatim>\<open>list_ensure_capacity\<close> returns a handle, the length
  behind the returned handle is the length before the call. If moreover the list was
  well formed (\<open>length \<le> capacity\<close>, the live elements inside the block), \<open>item_size\<close> is
  the size of an element and not 0, and the byte size \<open>sizeof(ListPrelude) + capacity *
  item_size\<close> for the capacity after the call is below \<open>2 ^ 64\<close>, then every live element
  is read through the returned handle with the value it had before, whether or not the
  block was reallocated.
\<close>

theorem ensure_capacity_keeps_elements:
  assumes res: "list_ensure_capacity m l n sz = Some (Inr (m', l'))"
    and blk: "blocks m (list_prelude l) = Some b"
  shows "\<exists>b'. blocks m' (list_prelude l') = Some b' \<and> length_p b' = length_p b \<and>
           (length_p b \<le> capacity b \<and> unat (length_p b) \<le> length (slots b) \<and>
            stride b = sz \<and> sz \<noteq> 0 \<and>
            unat sizeof_ListPrelude + unat (capacity b') * unat sz < 2 ^ 64 \<longrightarrow>
            (\<forall>i. i < length_p b \<longrightarrow>
               list_get m' l' i = Inr (slots b ! unat i) \<and> list_get m l i = Inr (slots b ! unat i)))"
  using res blk
proof (cases rule: ensure_capacity_cases)
  case same
  show ?thesis
  proof (intro exI [of _ b] conjI impI allI)
    show "blocks m' (list_prelude l') = Some b" using same blk by simp
  next
    fix i
    assume a: "length_p b \<le> capacity b \<and> unat (length_p b) \<le> length (slots b) \<and>
            stride b = sz \<and> sz \<noteq> 0 \<and>
            unat sizeof_ListPrelude + unat (capacity b) * unat sz < 2 ^ 64"
      and i: "i < length_p b"
    from i have "unat i < unat (length_p b)" by (simp add: word_less_nat_alt)
    with a have "unat i < length (slots b)" by linarith
    with blk same show "list_get m' l' i = Inr (slots b ! unat i)"
      and "list_get m l i = Inr (slots b ! unat i)"
      by (simp_all add: list_get_def)
  qed simp
next
  case (grown nc q al c')
  let ?b' = "b\<lparr>capacity := nc,
       slots := resize_slots (nslots (sizeof_ListPrelude + nc * sz) (stride b)) (slots b)\<rparr>"
  have b': "blocks m' (list_prelude l') = Some ?b'" using grown by simp
  show ?thesis
  proof (intro exI [of _ ?b'] conjI impI allI)
    show "blocks m' (list_prelude l') = Some ?b'" by (rule b')
  next
    fix i
    assume a: "length_p b \<le> capacity b \<and> unat (length_p b) \<le> length (slots b) \<and>
            stride b = sz \<and> sz \<noteq> 0 \<and>
            unat sizeof_ListPrelude + unat (capacity ?b') * unat sz < 2 ^ 64"
      and i: "i < length_p b"
    from a have fits: "unat sizeof_ListPrelude + unat nc * unat sz < 2 ^ 64" by simp
    from a have sz: "sz \<noteq> 0" "stride b = sz" by simp_all
    have n: "nslots (sizeof_ListPrelude + nc * sz) (stride b) = unat nc"
      using nslots_exact [OF fits sz(1)] sz(2) by simp
    from grown(2) have "length_p b + n \<le> nc" by (rule grow_capacity_result_ge)
    with grown(1) a have "length_p b < nc" by auto
    then have "unat (length_p b) < unat nc" by (simp add: word_less_nat_alt)
    moreover from i have "unat i < unat (length_p b)" by (simp add: word_less_nat_alt)
    ultimately have i1: "unat i < unat nc" by linarith
    from a \<open>unat i < unat (length_p b)\<close> have i2: "unat i < length (slots b)" by linarith
    show "list_get m' l' i = Inr (slots b ! unat i)"
      using b' i1 i2 by (simp add: list_get_def n nth_resize_slots)
    show "list_get m l i = Inr (slots b ! unat i)"
      using blk i2 by (simp add: list_get_def)
  qed simp
qed

text \<open>
  Witness for C10: a list of capacity 4 holding 10, 20, 30 is asked for 5 more. The block
  moves from address 64 to address 200, the capacity becomes 8, and the three elements
  are read unchanged through the new handle.
\<close>

theorem ensure_capacity_keeps_elements_witness:
  "(case list_ensure_capacity
      (\<lparr>blocks = [64 \<mapsto> \<lparr>capacity = 4, length_p = 3, allocator = 8, stride = 4,
                            slots = [Some 10, Some 20, Some 30, None]\<rparr>],
        allocators = [8 \<mapsto> bump_allocator 200], calls = []\<rparr> :: (nat, nat) memory)
      (prelude_end 64) 5 4 of
      Some (Inr (m', l')) \<Rightarrow>
        l' = prelude_end 200 \<and> list_len m' l' = Inr 3 \<and> list_cap m' l' = Inr 8 \<and>
        list_get m' l' 0 = Inr (Some 10) \<and> list_get m' l' 1 = Inr (Some 20) \<and>
        list_get m' l' 2 = Inr (Some 30)
    | _ \<Rightarrow> False)"
proof -
  let ?b = "\<lparr>capacity = 4, length_p = 3, allocator = 8, stride = 4,
             slots = [Some 10, Some 20, Some 30, None]\<rparr> :: nat block"
  let ?m = "\<lparr>blocks = [64 \<mapsto> ?b], allocators = [8 \<mapsto> bump_allocator 200], calls = []\<rparr>"
  let ?b' = "?b\<lparr>capacity := 8, slots := [Some 10, Some 20, Some 30, None] @ replicate 4 None\<rparr>"
  let ?m' = "?m\<lparr>blocks := [200 \<mapsto> ?b'],
                 allocators := [8 \<mapsto> (bump_allocator 200)\<lparr>context := 265\<rparr>],
                 calls := [Realloc 64 64]\<rparr>"
  have ens: "list_ensure_capacity ?m (prelude_end 64) 5 4 = Some (Inr (?m', prelude_end 200))"
    by (simp add: list_ensure_capacity_def grow_capacity.simps call_realloc_def
        store_capacity_def bump_allocator_def sizeof_ListPrelude_def nslots_def
        resize_slots_def Let_def)
  have blk: "blocks ?m (list_prelude (prelude_end 64)) = Some ?b" by simp
  from ensure_capacity_keeps_elements [OF ens blk]
  have "list_len ?m' (prelude_end 200) = Inr 3 \<and>
        (\<forall>i. i < 3 \<longrightarrow> list_get ?m' (prelude_end 200) i = Inr (slots ?b ! unat i))"
    by (simp add: list_len_def sizeof_ListPrelude_def)
  then have "list_len ?m' (prelude_end 200) = Inr 3"
    and "list_get ?m' (prelude_end 200) 0 = Inr (slots ?b ! unat (0 :: size_t))"
    and "list_get ?m' (prelude_end 200) 1 = Inr (slots ?b ! unat (1 :: size_t))"
    and "list_get ?m' (prelude_end 200) 2 = Inr (slots ?b ! unat (2 :: size_t))"
    by simp_all
  then show ?thesis
    unfolding ens by (simp add: list_cap_def)
qed

text \<open>
  Counterexample to C10 as stated: a list of 16-byte elements from \<^verbatim>\<open>list_new\<close> holds one
  element, 7. \<^verbatim>\<open>list_ensure_capacity(list, 1 << 60, 16)\<close> doubles the capacity to
  \<open>2 ^ 61\<close>; the new size \<open>32 + 2 ^ 61 * 16\<close> wraps around to 32 bytes. The realloc to 32
  bytes succeeds and leaves a block with no room for elements: the element that was
  readable before the call is out of bounds behind the returned handle.
\<close>

theorem ensure_capacity_keeps_elements_counterexample:
  "(case list_new (empty_memory (inplace_allocator 64) :: (nat, nat) memory) 16 of
      Inl f \<Rightarrow> False
    | Inr (m, list) \<Rightarrow>
        (case list_append m list 7 16 of
           Some (Inr (m1, list1, r)) \<Rightarrow>
             (case list_ensure_capacity m1 list1 (2 ^ 60) 16 of
                Some (Inr (m2, list2)) \<Rightarrow>
                  list_len m1 list1 = Inr 1 \<and> list_get m1 list1 0 = Inr (Some 7) \<and>
                  list_len m2 list2 = Inr 1 \<and> list_cap m2 list2 = Inr (2 ^ 61) \<and>
                  calls m2 = calls m1 @ [Realloc 64 32] \<and>
                  list_get m2 list2 0 = Inl OutOfBounds
              | _ \<Rightarrow> False)
         | _ \<Rightarrow> False))"
  by (simp add: run_defs list_append_def list_set_def list_len_def list_cap_def list_get_def
      list_ensure_capacity_def grow_capacity.simps)

end
